theory Spec2Isabelle
  imports Complex_Main "HOL-Library.Word" "HOL-Library.Log_Nat"
begin

section \<open>Machine model\<close>

text \<open>
  The program is \<^verbatim>\<open>src/main.c\<close>. The embedding fixes the usual LP64 POSIX platform:
  \<^verbatim>\<open>int\<close> is 32 bits wide and two's complement, \<^verbatim>\<open>size_t\<close> is 64 bits wide,
  \<^verbatim>\<open>sizeof(int) = sizeof(float) = 4\<close>, the byte order is little-endian, and
  \<^verbatim>\<open>fopen\<close> in mode \<^verbatim>\<open>"r"\<close> or \<^verbatim>\<open>"w"\<close> does not translate bytes.

  A C \<^verbatim>\<open>int\<close> is an \<^typ>\<open>int\<close> of HOL with the wrap-around of every arithmetic operation of
  the source written out as \<open>wrap32\<close>. A byte is an \<^typ>\<open>8 word\<close>. A \<^verbatim>\<open>float\<close> that
  is only moved between a file and memory (\<^verbatim>\<open>fread\<close>, \<^verbatim>\<open>fwrite\<close>) is its 32-bit
  pattern, a \<^typ>\<open>32 word\<close>. A \<^verbatim>\<open>float\<close> that takes part in arithmetic is a value of
  the type \<open>cfloat\<close> below.
\<close>

type_synonym byte = "8 word"

definition wrap32 :: "int \<Rightarrow> int" where
  "wrap32 i = (i + 2 ^ 31) mod 2 ^ 32 - 2 ^ 31"

definition size_t :: "int \<Rightarrow> nat" where
  "size_t i = nat (i mod 2 ^ 64)"

definition mul_size_t :: "nat \<Rightarrow> nat \<Rightarrow> nat" where
  "mul_size_t a b = (a * b) mod 2 ^ 64"

definition sizeof_float :: nat where
  "sizeof_float = 4"

definition sizeof_int :: nat where
  "sizeof_int = 4"

text \<open>The largest request \<^verbatim>\<open>malloc\<close> can serve; a larger one returns \<^verbatim>\<open>NULL\<close>.
  Every smaller request is taken to succeed.\<close>

definition PTRDIFF_MAX :: nat where
  "PTRDIFF_MAX = 2 ^ 63 - 1"

definition malloc_null :: "nat \<Rightarrow> bool" where
  "malloc_null req = (PTRDIFF_MAX < req)"

subsection \<open>Objects in memory as bytes\<close>

definition le_bytes :: "nat \<Rightarrow> byte list" where
  "le_bytes n = map (\<lambda>k. word_of_nat (n div 256 ^ k)) [0, 1, 2, 3]"

definition bytes_le :: "byte list \<Rightarrow> nat" where
  "bytes_le bs = foldr (\<lambda>b acc. unat b + 256 * acc) bs 0"

definition store_int :: "int \<Rightarrow> byte list" where
  "store_int i = le_bytes (nat (i mod 2 ^ 32))"

definition load_int :: "byte list \<Rightarrow> int" where
  "load_int bs = wrap32 (int (bytes_le bs))"

definition store_float :: "32 word \<Rightarrow> byte list" where
  "store_float x = le_bytes (unat x)"

definition load_float :: "byte list \<Rightarrow> 32 word" where
  "load_float bs = word_of_nat (bytes_le bs)"

fun chunks4 :: "byte list \<Rightarrow> byte list list" where
  "chunks4 (a # b # c # d # rest) = [a, b, c, d] # chunks4 rest"
| "chunks4 _ = []"

subsection \<open>Streams and files\<close>

text \<open>\<^verbatim>\<open>fread(ptr, size, nmemb, fd)\<close> on the rest \<open>s\<close> of a stream: the number of complete
  items read, the bytes stored, and the rest of the stream.\<close>

definition fread :: "nat \<Rightarrow> nat \<Rightarrow> byte list \<Rightarrow> nat \<times> byte list \<times> byte list" where
  "fread sz n s =
     (let got = take (sz * n) s in (length got div sz, got, drop (sz * n) s))"

text \<open>\<^verbatim>\<open>strncmp\<close>: compares at most \<open>n\<close> characters and stops at a NUL; the end of a list
  is the terminating NUL of the string.\<close>

fun strncmp :: "byte list \<Rightarrow> byte list \<Rightarrow> nat \<Rightarrow> int" where
  "strncmp a b 0 = 0"
| "strncmp a b (Suc n) =
     (let c = (case a of [] \<Rightarrow> 0 | x # _ \<Rightarrow> x);
          d = (case b of [] \<Rightarrow> 0 | y # _ \<Rightarrow> y)
      in if c \<noteq> d then int (unat c) - int (unat d)
         else if c = 0 then 0
         else strncmp (tl a) (tl b) n)"

record fsys =
  contents :: "string \<rightharpoonup> byte list"
  readable :: "string \<Rightarrow> bool"
  writable :: "string \<Rightarrow> bool"

text \<open>\<^verbatim>\<open>stat\<close> succeeds on a path that exists; \<^verbatim>\<open>fopen(f, "r")\<close> on one that exists and
  may be read; \<^verbatim>\<open>fopen(f, "w")\<close> on one that may be created or truncated.\<close>

definition stat_ok :: "fsys \<Rightarrow> string \<Rightarrow> bool" where
  "stat_ok fs f = (contents fs f \<noteq> None)"

definition fopen_r :: "fsys \<Rightarrow> string \<Rightarrow> byte list option" where
  "fopen_r fs f = (if readable fs f then contents fs f else None)"

definition fopen_w :: "fsys \<Rightarrow> string \<Rightarrow> bool" where
  "fopen_w fs f = writable fs f"

section \<open>The flow file\<close>

datatype FLOformat = FF_FLO | FF_FLOW | FF_LAST

text \<open>\<^verbatim>\<open>flo_formats[FF_LAST] = {"PIEH", "PIEI"}\<close>: the table has two entries. Index
  \<open>FF_LAST\<close> is outside it; \<^verbatim>\<open>read_flow\<close> never reads there and \<open>write_flow_fd\<close> below
  makes that read a fault.\<close>

definition flo_formats :: "FLOformat \<Rightarrow> byte list" where
  "flo_formats f = (case f of FF_FLO \<Rightarrow> map of_char ''PIEH''
                            | FF_FLOW \<Rightarrow> map of_char ''PIEI''
                            | FF_LAST \<Rightarrow> [])"

text \<open>The struct \<^verbatim>\<open>FLOfile\<close>, with the fields \<^verbatim>\<open>w, h, fmt, nmemb, data\<close>; \<open>'a\<close> is the
  type of a sample. The buffer \<^verbatim>\<open>data\<close> is the list of the floats allocated for it.\<close>

record 'a FLOfile =
  flo_w :: int
  flo_h :: int
  flo_fmt :: FLOformat
  flo_nmemb :: int
  flo_data :: "'a list"

text \<open>What the program prints before it gives up, and the faults (undefined behaviour of C)
  it can run into.\<close>

datatype message =
    Could_not_open_file
  | Could_not_read_file_header
  | Invalid_file_type
  | Could_not_read_width
  | Could_not_read_height
  | Invalid_width_or_height
  | Incomplete_data
  | Unavailable_file

datatype fault =
    Null_pointer_access
  | Out_of_bounds_read
  | Out_of_bounds_write

datatype error = Reported message | Fault fault

subsection \<open>\<^verbatim>\<open>read_flow\<close>\<close>

text \<open>The switch on \<^verbatim>\<open>fmt\<close> of \<^verbatim>\<open>read_flow\<close>: \<^verbatim>\<open>sz *= 2\<close>, \<^verbatim>\<open>sz *= 3\<close>, or nothing.\<close>

definition scale_sz :: "FLOformat \<Rightarrow> int \<Rightarrow> int" where
  "scale_sz f sz = (case f of FF_FLO \<Rightarrow> wrap32 (sz * 2)
                            | FF_FLOW \<Rightarrow> wrap32 (sz * 3)
                            | FF_LAST \<Rightarrow> sz)"

text \<open>\<^verbatim>\<open>read_flow\<close> from the point where the file is open, on the bytes of the file.\<close>

definition read_flow_fd :: "byte list \<Rightarrow> error + (32 word) FLOfile" where
  "read_flow_fd s0 =
     (case fread 1 4 s0 of (nt, tag, s1) \<Rightarrow>
      if nt < 4 then Inl (Reported Could_not_read_file_header)
      else
        let fmt = (if strncmp tag (flo_formats FF_FLO) 4 = 0 then FF_FLO
                   else if strncmp tag (flo_formats FF_FLOW) 4 = 0 then FF_FLOW
                   else FF_LAST)
        in
        if fmt = FF_LAST then Inl (Reported Invalid_file_type)
        else
          (case fread sizeof_int 1 s1 of (nw, wb, s2) \<Rightarrow>
           if nw < 1 then Inl (Reported Could_not_read_width)
           else
             (case fread sizeof_int 1 s2 of (nh, hb, s3) \<Rightarrow>
              if nh < 1 then Inl (Reported Could_not_read_height)
              else
                let w = load_int wb; h = load_int hb in
                if w \<le> 0 \<or> h \<le> 0 then Inl (Reported Invalid_width_or_height)
                else
                  let sz = scale_sz fmt (wrap32 (w * h));
                      req = mul_size_t (size_t sz) sizeof_float
                  in
                  (case fread 1 req s3 of (nd, db, s4) \<Rightarrow>
                   if malloc_null req \<and> 0 < nd then Inl (Fault Null_pointer_access)
                   else if nd < req then Inl (Reported Incomplete_data)
                   else Inr \<lparr>flo_w = w, flo_h = h, flo_fmt = fmt, flo_nmemb = sz,
                             flo_data = map load_float (chunks4 db)\<rparr>))))"

definition read_flow :: "fsys \<Rightarrow> string \<Rightarrow> error + (32 word) FLOfile" where
  "read_flow fs f =
     (case fopen_r fs f of None \<Rightarrow> Inl (Reported Could_not_open_file)
                         | Some s \<Rightarrow> read_flow_fd s)"

subsection \<open>\<^verbatim>\<open>write_flow\<close>\<close>

text \<open>The bytes \<^verbatim>\<open>write_flow\<close> sends to the open file: the tag, \<^verbatim>\<open>w\<close>, \<^verbatim>\<open>h\<close> and
  \<^verbatim>\<open>nmemb * sizeof(float)\<close> bytes of the buffer.\<close>

definition write_flow_fd :: "(32 word) FLOfile \<Rightarrow> fault + byte list" where
  "write_flow_fd flo =
     (if flo_fmt flo = FF_LAST then Inl Out_of_bounds_read
      else
        let tag = flo_formats (flo_fmt flo);
            req = mul_size_t (size_t (flo_nmemb flo)) sizeof_float
        in
        if sizeof_float * length (flo_data flo) < req then Inl Out_of_bounds_read
        else Inr (tag @ store_int (flo_w flo) @ store_int (flo_h flo)
                    @ take req (concat (map store_float (flo_data flo)))))"

text \<open>\<^verbatim>\<open>write_flow\<close> returns \<open>-1\<close> when the file cannot be opened and \<open>0\<close> otherwise; the
  results of \<^verbatim>\<open>fprintf\<close>, \<^verbatim>\<open>fwrite\<close> and \<^verbatim>\<open>fclose\<close> are not looked at.\<close>

definition write_flow :: "fsys \<Rightarrow> string \<Rightarrow> (32 word) FLOfile \<Rightarrow> fault + int \<times> fsys" where
  "write_flow fs f flo =
     (if \<not> fopen_w fs f then Inr (- 1, fs)
      else (case write_flow_fd flo of
              Inl e \<Rightarrow> Inl e
            | Inr bs \<Rightarrow> Inr (0, fs\<lparr>contents := (contents fs)(f \<mapsto> bs)\<rparr>)))"

section \<open>Resampling\<close>

text \<open>The number of floats per cell, as the switch on \<^verbatim>\<open>fmt\<close> of \<^verbatim>\<open>extrapolate\<close> sets
  \<^verbatim>\<open>npb\<close>: 2 at first, 2 for \<open>FF_FLO\<close>, 3 for \<open>FF_FLOW\<close>, unchanged otherwise.\<close>

definition npb_of :: "FLOformat \<Rightarrow> int" where
  "npb_of f = (case f of FF_FLO \<Rightarrow> 2 | FF_FLOW \<Rightarrow> 3 | FF_LAST \<Rightarrow> 2)"

subsection \<open>Arithmetic on floats and the conversion to \<^verbatim>\<open>int\<close>\<close>

text \<open>
  A \<^verbatim>\<open>float\<close> is an IEEE 754 binary32 number: a finite value, an infinity or NaN. A finite
  value is the rational number it denotes; the two zeros are one value, and NaN carries no
  payload. Every operation is computed exactly and then rounded to the nearest binary32 number,
  ties to even, as the SSE instructions of x86-64 do; the compiler evaluates \<^verbatim>\<open>float\<close>
  expressions in \<^verbatim>\<open>float\<close> and fuses no multiplication with an addition.
\<close>

datatype cfloat = Finite rat | PlusInf | MinusInf | NaN

text \<open>Rounding to the nearest integer, ties to even.\<close>

definition round_even :: "rat \<Rightarrow> int" where
  "round_even t =
     (let n = \<lfloor>t\<rfloor>; d = t - of_int n
      in if d < 1 / 2 then n else if 1 / 2 < d then n + 1 else if even n then n else n + 1)"

text \<open>The binary32 numbers near \<open>r\<close> are the multiples of \<open>2 ^ float_exp r / 2 ^ 149\<close>: the
  multiples of \<open>2 ^ (e - 23)\<close> when \<open>2 ^ e \<le> \<bar>r\<bar> < 2 ^ (e + 1)\<close>, and never finer than
  \<open>1 / 2 ^ 149\<close>, the least positive binary32 number.\<close>

definition float_exp :: "rat \<Rightarrow> nat" where
  "float_exp r = min 253 (nat (bitlen \<lfloor>\<bar>r\<bar> * 2 ^ 149\<rfloor> - 24))"

definition quantum :: "rat \<Rightarrow> rat" where
  "quantum r = 2 ^ float_exp r / 2 ^ 149"

text \<open>The multiple of \<open>quantum r\<close> nearest to \<open>r\<close>, ties to the even multiple.\<close>

definition nearest :: "rat \<Rightarrow> rat" where
  "nearest r = of_int (round_even (r / quantum r)) * quantum r"

text \<open>The binary32 number nearest to \<open>r\<close>: an infinity when \<open>nearest r\<close> has magnitude
  \<open>2 ^ 128\<close> or more.\<close>

definition round32 :: "rat \<Rightarrow> cfloat" where
  "round32 r =
     (let v = nearest r
      in if 2 ^ 128 \<le> v then PlusInf else if v \<le> - (2 ^ 128) then MinusInf else Finite v)"

definition signed_inf :: "rat \<Rightarrow> cfloat" where
  "signed_inf a = (if a = 0 then NaN else if 0 < a then PlusInf else MinusInf)"

fun fneg :: "cfloat \<Rightarrow> cfloat" where
  "fneg (Finite a) = Finite (- a)"
| "fneg PlusInf = MinusInf"
| "fneg MinusInf = PlusInf"
| "fneg NaN = NaN"

fun fadd :: "cfloat \<Rightarrow> cfloat \<Rightarrow> cfloat" where
  "fadd (Finite a) (Finite b) = round32 (a + b)"
| "fadd NaN _ = NaN"
| "fadd _ NaN = NaN"
| "fadd PlusInf MinusInf = NaN"
| "fadd MinusInf PlusInf = NaN"
| "fadd PlusInf _ = PlusInf"
| "fadd _ PlusInf = PlusInf"
| "fadd MinusInf _ = MinusInf"
| "fadd _ MinusInf = MinusInf"

definition fsub :: "cfloat \<Rightarrow> cfloat \<Rightarrow> cfloat" where
  "fsub a b = fadd a (fneg b)"

fun fmul :: "cfloat \<Rightarrow> cfloat \<Rightarrow> cfloat" where
  "fmul (Finite a) (Finite b) = round32 (a * b)"
| "fmul NaN _ = NaN"
| "fmul _ NaN = NaN"
| "fmul (Finite a) PlusInf = signed_inf a"
| "fmul (Finite a) MinusInf = signed_inf (- a)"
| "fmul PlusInf (Finite b) = signed_inf b"
| "fmul MinusInf (Finite b) = signed_inf (- b)"
| "fmul PlusInf PlusInf = PlusInf"
| "fmul MinusInf MinusInf = PlusInf"
| "fmul PlusInf MinusInf = MinusInf"
| "fmul MinusInf PlusInf = MinusInf"

fun fdiv :: "cfloat \<Rightarrow> cfloat \<Rightarrow> cfloat" where
  "fdiv (Finite a) (Finite b) = (if b = 0 then signed_inf a else round32 (a / b))"
| "fdiv NaN _ = NaN"
| "fdiv _ NaN = NaN"
| "fdiv (Finite a) _ = Finite 0"
| "fdiv PlusInf (Finite b) = (if b < 0 then MinusInf else PlusInf)"
| "fdiv MinusInf (Finite b) = (if b < 0 then PlusInf else MinusInf)"
| "fdiv _ _ = NaN"

text \<open>\<^verbatim>\<open>a <= b\<close> on floats: false when either is NaN.\<close>

fun fle :: "cfloat \<Rightarrow> cfloat \<Rightarrow> bool" where
  "fle (Finite a) (Finite b) = (a \<le> b)"
| "fle NaN _ = False"
| "fle _ NaN = False"
| "fle MinusInf _ = True"
| "fle _ PlusInf = True"
| "fle _ _ = False"

text \<open>\<^verbatim>\<open>(float)i\<close>.\<close>

definition float_of_int :: "int \<Rightarrow> cfloat" where
  "float_of_int i = round32 (of_int i)"

text \<open>\<^verbatim>\<open>(int)floor(r)\<close>. C gives the conversion no meaning when the value is not an
  \<^verbatim>\<open>int\<close>; the conversion instruction of x86-64 then delivers \<^verbatim>\<open>INT_MIN\<close>, and so does this
  function.\<close>

fun int_of_floor :: "cfloat \<Rightarrow> int" where
  "int_of_floor (Finite r) =
     (if - (2 ^ 31) \<le> \<lfloor>r\<rfloor> \<and> \<lfloor>r\<rfloor> < 2 ^ 31 then \<lfloor>r\<rfloor> else - (2 ^ 31))"
| "int_of_floor _ = - (2 ^ 31)"

subsection \<open>\<^verbatim>\<open>interpolate2D_weights\<close>\<close>

text \<open>The array \<^verbatim>\<open>float w[2][2]\<close> is the list \<open>[[w[0][0], w[0][1]], [w[1][0], w[1][1]]]\<close>.\<close>

definition interpolate2D_weights :: "cfloat \<Rightarrow> cfloat \<Rightarrow> cfloat list list" where
  "interpolate2D_weights rx ry =
     (let iy = int_of_floor ry;
          ix = int_of_floor rx;
          y = fsub ry (float_of_int iy);
          x = fsub rx (float_of_int ix)
      in [[fmul (fsub (Finite 1) x) (fsub (Finite 1) y), fmul (fsub (Finite 1) x) y],
          [fmul x (fsub (Finite 1) y), fmul x y]])"

definition weight_at :: "cfloat list list \<Rightarrow> int \<Rightarrow> int \<Rightarrow> fault + cfloat" where
  "weight_at weight wx wy =
     (if 0 \<le> wx \<and> wx < 2 \<and> 0 \<le> wy \<and> wy < 2 then Inr (weight ! nat wx ! nat wy)
      else Inl Out_of_bounds_read)"

subsection \<open>The macros \<^verbatim>\<open>_U_IDX\<close>, \<^verbatim>\<open>_V_IDX\<close>, \<^verbatim>\<open>_C_IDX\<close> and the buffer accesses\<close>

definition U_IDX :: "'a FLOfile \<Rightarrow> int \<Rightarrow> int \<Rightarrow> int \<Rightarrow> int" where
  "U_IDX flow x y npb =
     wrap32 (wrap32 (wrap32 (y * wrap32 (flo_w flow * npb)) + wrap32 (x * npb)) + 0)"

definition V_IDX :: "'a FLOfile \<Rightarrow> int \<Rightarrow> int \<Rightarrow> int \<Rightarrow> int" where
  "V_IDX flow x y npb =
     wrap32 (wrap32 (wrap32 (y * wrap32 (flo_w flow * npb)) + wrap32 (x * npb)) + 1)"

definition C_IDX :: "'a FLOfile \<Rightarrow> int \<Rightarrow> int \<Rightarrow> int \<Rightarrow> int" where
  "C_IDX flow x y npb =
     wrap32 (wrap32 (wrap32 (y * wrap32 (flo_w flow * npb)) + wrap32 (x * npb)) + 2)"

text \<open>Reading and writing \<^verbatim>\<open>flow->data[i]\<close>: outside the buffer it is a fault.\<close>

definition load :: "'a FLOfile \<Rightarrow> int \<Rightarrow> fault + 'a" where
  "load flow i =
     (if 0 \<le> i \<and> i < int (length (flo_data flow)) then Inr (flo_data flow ! nat i)
      else Inl Out_of_bounds_read)"

definition store :: "'a FLOfile \<Rightarrow> int \<Rightarrow> 'a \<Rightarrow> fault + 'a FLOfile" where
  "store flow i v =
     (if 0 \<le> i \<and> i < int (length (flo_data flow))
      then Inr (flow\<lparr>flo_data := (flo_data flow)[nat i := v]\<rparr>)
      else Inl Out_of_bounds_write)"

subsection \<open>The loop nest of \<^verbatim>\<open>extrapolate\<close>\<close>

text \<open>The body of the innermost loop, for the corner \<open>(ix, iy)\<close> with the weight
  \<^verbatim>\<open>weight[wx][wy]\<close>: a corner with \<^verbatim>\<open>ix >= in_flo->w || iy >= in_flo->h\<close> is passed over
  (\<^verbatim>\<open>continue\<close>), any other adds to \<open>u\<close>, \<open>v\<close> and, for \<open>FF_FLOW\<close>, \<open>c\<close>.\<close>

definition corner ::
  "cfloat FLOfile \<Rightarrow> FLOformat \<Rightarrow> int \<Rightarrow> cfloat list list \<Rightarrow> int \<Rightarrow> int \<Rightarrow> int \<Rightarrow> int
     \<Rightarrow> cfloat \<times> cfloat \<times> cfloat \<Rightarrow> fault + cfloat \<times> cfloat \<times> cfloat" where
  "corner in_flo out_fmt npb weight iy wy ix wx acc =
     (case acc of (u, v, c) \<Rightarrow>
      if ix \<ge> flo_w in_flo \<or> iy \<ge> flo_h in_flo then Inr (u, v, c)
      else
        case weight_at weight wx wy of Inl e \<Rightarrow> Inl e | Inr wt \<Rightarrow>
        case load in_flo (U_IDX in_flo ix iy npb) of Inl e \<Rightarrow> Inl e | Inr du \<Rightarrow>
        case load in_flo (V_IDX in_flo ix iy npb) of Inl e \<Rightarrow> Inl e | Inr dv \<Rightarrow>
          if out_fmt = FF_FLOW
          then (case load in_flo (C_IDX in_flo ix iy npb) of Inl e \<Rightarrow> Inl e | Inr dc \<Rightarrow>
                  Inr (fadd u (fmul wt du), fadd v (fmul wt dv), fadd c (fmul wt dc)))
          else Inr (fadd u (fmul wt du), fadd v (fmul wt dv), c))"

text \<open>\<^verbatim>\<open>for (ix = kx1, wx = 0; ix < kx2; ix++, wx++, n++)\<close>. The counter \<open>n\<close> is never
  read. Since \<open>ix < kx2\<close>, the increment of \<open>ix\<close> cannot overflow.\<close>

function corner_loop_x ::
  "cfloat FLOfile \<Rightarrow> FLOformat \<Rightarrow> int \<Rightarrow> cfloat list list \<Rightarrow> int \<Rightarrow> int \<Rightarrow> int \<Rightarrow> int \<Rightarrow> int
     \<Rightarrow> cfloat \<times> cfloat \<times> cfloat \<Rightarrow> fault + cfloat \<times> cfloat \<times> cfloat" where
  "corner_loop_x in_flo out_fmt npb weight kx2 iy wy ix wx acc =
     (if ix < kx2
      then (case corner in_flo out_fmt npb weight iy wy ix wx acc of
              Inl e \<Rightarrow> Inl e
            | Inr acc' \<Rightarrow> corner_loop_x in_flo out_fmt npb weight kx2 iy wy (ix + 1) (wx + 1) acc')
      else Inr acc)"
  by pat_completeness auto
termination
  by (relation "measure (\<lambda>(in_flo, out_fmt, npb, weight, kx2, iy, wy, ix, wx, acc). nat (kx2 - ix))")
    auto

text \<open>\<^verbatim>\<open>for (iy = ky1, wy = 0; iy < ky2; iy++, wy++)\<close>.\<close>

function corner_loop_y ::
  "cfloat FLOfile \<Rightarrow> FLOformat \<Rightarrow> int \<Rightarrow> cfloat list list \<Rightarrow> int \<Rightarrow> int \<Rightarrow> int \<Rightarrow> int \<Rightarrow> int
     \<Rightarrow> cfloat \<times> cfloat \<times> cfloat \<Rightarrow> fault + cfloat \<times> cfloat \<times> cfloat" where
  "corner_loop_y in_flo out_fmt npb weight kx1 kx2 ky2 iy wy acc =
     (if iy < ky2
      then (case corner_loop_x in_flo out_fmt npb weight kx2 iy wy kx1 0 acc of
              Inl e \<Rightarrow> Inl e
            | Inr acc' \<Rightarrow> corner_loop_y in_flo out_fmt npb weight kx1 kx2 ky2 (iy + 1) (wy + 1) acc')
      else Inr acc)"
  by pat_completeness auto
termination
  by (relation "measure (\<lambda>(in_flo, out_fmt, npb, weight, kx1, kx2, ky2, iy, wy, acc). nat (ky2 - iy))")
    auto

text \<open>The values \<open>u\<close>, \<open>v\<close>, \<open>c\<close> the body of the loop over \<open>x\<close> computes for the cell
  \<open>(x, y)\<close> of the output.\<close>

definition cell ::
  "cfloat FLOfile \<Rightarrow> FLOformat \<Rightarrow> int \<Rightarrow> cfloat \<Rightarrow> cfloat \<Rightarrow> int \<Rightarrow> int
     \<Rightarrow> fault + cfloat \<times> cfloat \<times> cfloat" where
  "cell in_flo out_fmt npb sx sy x y =
     (let rx = fdiv (float_of_int x) sx;
          ry = fdiv (float_of_int y) sy;
          kx1 = int_of_floor rx;
          ky1 = int_of_floor ry;
          kx2 = wrap32 (kx1 + 2);
          ky2 = wrap32 (ky1 + 2);
          weight = interpolate2D_weights rx ry
      in corner_loop_y in_flo out_fmt npb weight kx1 kx2 ky2 ky1 0 (Finite 0, Finite 0, Finite 0))"

text \<open>The three assignments that end the body of the loop over \<open>x\<close>.\<close>

definition store_cell ::
  "cfloat FLOfile \<Rightarrow> int \<Rightarrow> int \<Rightarrow> int \<Rightarrow> cfloat \<times> cfloat \<times> cfloat \<Rightarrow> fault + cfloat FLOfile" where
  "store_cell out_flo npb x y acc =
     (case acc of (u, v, c) \<Rightarrow>
      case store out_flo (U_IDX out_flo x y npb) u of Inl e \<Rightarrow> Inl e | Inr o1 \<Rightarrow>
      case store o1 (V_IDX o1 x y npb) v of Inl e \<Rightarrow> Inl e | Inr o2 \<Rightarrow>
        if flo_fmt o2 = FF_FLOW then store o2 (C_IDX o2 x y npb) c else Inr o2)"

text \<open>\<^verbatim>\<open>for (int x = 0; x < w; x++)\<close>.\<close>

function cell_loop_x ::
  "cfloat FLOfile \<Rightarrow> int \<Rightarrow> cfloat \<Rightarrow> cfloat \<Rightarrow> int \<Rightarrow> int \<Rightarrow> int \<Rightarrow> cfloat FLOfile
     \<Rightarrow> fault + cfloat FLOfile" where
  "cell_loop_x in_flo npb sx sy w y x out_flo =
     (if x < w
      then (case cell in_flo (flo_fmt out_flo) npb sx sy x y of
              Inl e \<Rightarrow> Inl e
            | Inr acc \<Rightarrow>
                (case store_cell out_flo npb x y acc of
                   Inl e \<Rightarrow> Inl e
                 | Inr out' \<Rightarrow> cell_loop_x in_flo npb sx sy w y (x + 1) out'))
      else Inr out_flo)"
  by pat_completeness auto
termination
  by (relation "measure (\<lambda>(in_flo, npb, sx, sy, w, y, x, out_flo). nat (w - x))") auto

text \<open>\<^verbatim>\<open>for (int y = 0; y < h; y++)\<close>.\<close>

function cell_loop_y ::
  "cfloat FLOfile \<Rightarrow> int \<Rightarrow> cfloat \<Rightarrow> cfloat \<Rightarrow> int \<Rightarrow> int \<Rightarrow> int \<Rightarrow> cfloat FLOfile
     \<Rightarrow> fault + cfloat FLOfile" where
  "cell_loop_y in_flo npb sx sy w h y out_flo =
     (if y < h
      then (case cell_loop_x in_flo npb sx sy w y 0 out_flo of
              Inl e \<Rightarrow> Inl e
            | Inr out' \<Rightarrow> cell_loop_y in_flo npb sx sy w h (y + 1) out')
      else Inr out_flo)"
  by pat_completeness auto
termination
  by (relation "measure (\<lambda>(in_flo, npb, sx, sy, w, h, y, out_flo). nat (h - y))") auto

subsection \<open>\<^verbatim>\<open>extrapolate\<close>\<close>

text \<open>The output field as \<^verbatim>\<open>extrapolate\<close> allocates it: \<^verbatim>\<open>nmemb = npb * w * h\<close>, a buffer
  of \<^verbatim>\<open>nmemb * sizeof(float)\<close> bytes, set to zero. When \<^verbatim>\<open>malloc\<close> returns
  \<^verbatim>\<open>NULL\<close>, \<^verbatim>\<open>memset\<close> writes through it.\<close>

definition alloc_out :: "'a FLOfile \<Rightarrow> int \<Rightarrow> int \<Rightarrow> fault + cfloat FLOfile" where
  "alloc_out in_flo w h =
     (let npb = npb_of (flo_fmt in_flo);
          nmemb = wrap32 (wrap32 (npb * w) * h);
          req = mul_size_t (size_t nmemb) sizeof_float
      in if malloc_null req then Inl Null_pointer_access
         else Inr \<lparr>flo_w = w, flo_h = h, flo_fmt = flo_fmt in_flo, flo_nmemb = nmemb,
                   flo_data = replicate (req div sizeof_float) (Finite 0)\<rparr>)"

text \<open>\<^verbatim>\<open>if (sx <= 0.0f) sx = (float)w / (float)in_flo->w;\<close> and the same for \<open>sy\<close>.\<close>

definition exact_scaling :: "cfloat \<Rightarrow> int \<Rightarrow> int \<Rightarrow> cfloat" where
  "exact_scaling s n in_n =
     (if fle s (Finite 0) then fdiv (float_of_int n) (float_of_int in_n) else s)"

text \<open>\<^verbatim>\<open>extrapolate\<close> between \<^verbatim>\<open>read_flow\<close> and \<^verbatim>\<open>write_flow\<close>: from the field read to
  the field to be written.\<close>

definition resample ::
  "cfloat FLOfile \<Rightarrow> int \<Rightarrow> int \<Rightarrow> cfloat \<Rightarrow> cfloat \<Rightarrow> fault + cfloat FLOfile" where
  "resample in_flo w h sx sy =
     (case alloc_out in_flo w h of Inl e \<Rightarrow> Inl e | Inr out_flo \<Rightarrow>
        let sx' = exact_scaling sx w (flo_w in_flo);
            sy' = exact_scaling sy h (flo_h in_flo)
        in cell_loop_y in_flo (npb_of (flo_fmt in_flo)) sx' sy' w h 0 out_flo)"

definition EXIT_SUCCESS :: int where
  "EXIT_SUCCESS = 0"

definition EXIT_FAILURE :: int where
  "EXIT_FAILURE = 1"

definition test_file :: "fsys \<Rightarrow> string \<Rightarrow> bool" where
  "test_file fs f = (if \<not> stat_ok fs f then False else True)"

definition test_files :: "fsys \<Rightarrow> string \<Rightarrow> string \<Rightarrow> bool" where
  "test_files fs inp out = (if \<not> test_file fs inp then False else True)"

definition map_data :: "('a \<Rightarrow> 'b) \<Rightarrow> 'a FLOfile \<Rightarrow> 'b FLOfile" where
  "map_data g flow =
     \<lparr>flo_w = flo_w flow, flo_h = flo_h flow, flo_fmt = flo_fmt flow, flo_nmemb = flo_nmemb flow,
      flo_data = map g (flo_data flow)\<rparr>"

text \<open>The whole of \<^verbatim>\<open>extrapolate\<close>: the value it returns and the file system it leaves, or
  the fault that ends the process. The value of a 32-bit pattern as a float and the pattern
  of a float, \<open>float_val\<close> and \<open>float_rep\<close>, are parameters. The result of
  \<^verbatim>\<open>write_flow\<close> is dropped, as in the source.\<close>

definition extrapolate ::
  "(32 word \<Rightarrow> cfloat) \<Rightarrow> (cfloat \<Rightarrow> 32 word) \<Rightarrow> fsys \<Rightarrow> int \<Rightarrow> int \<Rightarrow> cfloat \<Rightarrow> cfloat
     \<Rightarrow> string \<Rightarrow> string \<Rightarrow> fault + int \<times> fsys" where
  "extrapolate float_val float_rep fs w h sx sy inp out =
     (if \<not> test_files fs inp out then Inr (EXIT_FAILURE, fs)
      else
        case read_flow fs inp of
          Inl (Reported m) \<Rightarrow> Inr (EXIT_FAILURE, fs)
        | Inl (Fault e) \<Rightarrow> Inl e
        | Inr in_flo \<Rightarrow>
            (case resample (map_data float_val in_flo) w h sx sy of
               Inl e \<Rightarrow> Inl e
             | Inr out_flo \<Rightarrow>
                 (case write_flow fs out (map_data float_rep out_flo) of
                    Inl e \<Rightarrow> Inl e
                  | Inr (r, fs') \<Rightarrow> Inr (EXIT_SUCCESS, fs'))))"

declare corner_loop_x.simps [simp del] corner_loop_y.simps [simp del]
  cell_loop_x.simps [simp del] cell_loop_y.simps [simp del]

section \<open>Fields the program can hold\<close>

text \<open>A valid field: positive width and height, one of the two formats, and a buffer of exactly
  \<open>w * h * npb\<close> floats, which is also what \<^verbatim>\<open>nmemb\<close> holds. Since \<^verbatim>\<open>nmemb\<close> is an
  \<^verbatim>\<open>int\<close>, that product is below \<open>2 ^ 31\<close>.\<close>

definition valid_flow :: "'a FLOfile \<Rightarrow> bool" where
  "valid_flow f =
     (0 < flo_w f \<and> 0 < flo_h f \<and> flo_fmt f \<noteq> FF_LAST
      \<and> flo_w f * flo_h f * npb_of (flo_fmt f) < 2 ^ 31
      \<and> flo_nmemb f = flo_w f * flo_h f * npb_of (flo_fmt f)
      \<and> int (length (flo_data f)) = flo_nmemb f)"


section \<open>Notions for stating the results\<close>

text \<open>The definitions of this section are not part of the program; the lemmas below relate
  them to it.\<close>

text \<open>The position of the first float of cell \<open>(x, y)\<close> in a buffer of width \<open>w\<close> with \<open>npb\<close>
  floats per cell: what the index macros compute when nothing wraps.\<close>

definition cell_index :: "int \<Rightarrow> int \<Rightarrow> int \<Rightarrow> int \<Rightarrow> int" where
  "cell_index w npb x y = (y * w + x) * npb"

text \<open>One pass of the innermost loop on one accumulator: nothing for a corner that is passed
  over, and \<open>acc + wt * data\<close> otherwise.\<close>

definition accum :: "cfloat FLOfile \<Rightarrow> cfloat \<Rightarrow> cfloat \<Rightarrow> int \<Rightarrow> int \<Rightarrow> int \<Rightarrow> cfloat" where
  "accum f acc wt ix iy ch =
     (if ix < flo_w f \<and> iy < flo_h f
      then fadd acc (fmul wt (flo_data f ! nat (cell_index (flo_w f) (npb_of (flo_fmt f)) ix iy + ch)))
      else acc)"

text \<open>The four passes for the source position \<open>(rx, ry)\<close>, in the order of the source.\<close>

definition blend :: "cfloat FLOfile \<Rightarrow> cfloat \<Rightarrow> cfloat \<Rightarrow> int \<Rightarrow> cfloat" where
  "blend f rx ry ch =
     (let kx = int_of_floor rx; ky = int_of_floor ry; wt = interpolate2D_weights rx ry
      in accum f (accum f (accum f (accum f (Finite 0) (wt ! 0 ! 0) kx ky ch)
                                   (wt ! 1 ! 0) (kx + 1) ky ch)
                          (wt ! 0 ! 1) kx (ky + 1) ch)
                 (wt ! 1 ! 1) (kx + 1) (ky + 1) ch)"

text \<open>The float at position \<open>i\<close> of the output buffer: channel \<open>i mod npb\<close> of the cell
  \<open>(x, y)\<close> with \<open>y * w + x = i div npb\<close>.\<close>

definition blended :: "cfloat FLOfile \<Rightarrow> int \<Rightarrow> cfloat \<Rightarrow> cfloat \<Rightarrow> int \<Rightarrow> cfloat" where
  "blended f w sx sy i =
     (let npb = npb_of (flo_fmt f); ch = i mod npb; q = i div npb; x = q mod w; y = q div w
      in blend f (fdiv (float_of_int x) sx) (fdiv (float_of_int y) sy) ch)"

text \<open>A finite binary32 number, and a field all of whose samples are such.\<close>

fun is_float :: "cfloat \<Rightarrow> bool" where
  "is_float (Finite a) = (round32 a = Finite a)"
| "is_float _ = False"

definition finite_flow :: "cfloat FLOfile \<Rightarrow> bool" where
  "finite_flow f = list_all is_float (flo_data f)"

text \<open>Channel \<open>ch\<close> of the triple \<open>(u, v, c)\<close>.\<close>

definition chan :: "'a \<times> 'a \<times> 'a \<Rightarrow> int \<Rightarrow> 'a" where
  "chan acc ch = (case acc of (u, v, c) \<Rightarrow> if ch = 0 then u else if ch = 1 then v else c)"

text \<open>Two fields that differ at most in the contents of the buffer.\<close>

definition same_shape :: "'a FLOfile \<Rightarrow> 'a FLOfile \<Rightarrow> bool" where
  "same_shape a b =
     (flo_w a = flo_w b \<and> flo_h a = flo_h b \<and> flo_fmt a = flo_fmt b \<and> flo_nmemb a = flo_nmemb b
      \<and> length (flo_data a) = length (flo_data b))"

section \<open>Bytes, integers and samples\<close>

lemma unat_byte: "unat (word_of_nat n :: byte) = n mod 256"
  by (simp add: unat_of_nat)

lemma digits4: "n mod b + b * (n div b mod b + b * (n div (b * b) mod b + b * (n div (b * b * b) mod b))) = n mod (b * b * b * b)" for n b :: nat
  by (simp add: mod_mult2_eq div_mult2_eq algebra_simps)

lemma bytes_le_le_bytes: "bytes_le (le_bytes n) = n mod 4294967296"
  using digits4 [of n 256] by (simp add: bytes_le_def le_bytes_def unat_byte)

lemma wrap32_id: "- (2 ^ 31) \<le> i \<Longrightarrow> i < 2 ^ 31 \<Longrightarrow> wrap32 i = i"
  by (simp add: wrap32_def)

lemma wrap32_mod: "wrap32 (i mod 4294967296) = wrap32 i"
  by (simp add: wrap32_def mod_add_left_eq)

lemma load_store_int: "- (2 ^ 31) \<le> i \<Longrightarrow> i < 2 ^ 31 \<Longrightarrow> load_int (store_int i) = i"
  by (simp add: load_int_def store_int_def bytes_le_le_bytes zmod_int wrap32_mod wrap32_id)

lemma unat32: "unat (x :: 32 word) mod 4294967296 = unat x"
  using unsigned_less [of x, where 'a = nat] by simp

lemma load_store_float: "load_float (store_float x) = x"
  by (simp add: load_float_def store_float_def bytes_le_le_bytes unat32)

lemma length_le_bytes: "length (le_bytes n) = 4"
  by (simp add: le_bytes_def)

lemma length_store_int: "length (store_int i) = 4"
  by (simp add: store_int_def length_le_bytes)

lemma length_store_floats: "length (concat (map store_float xs)) = 4 * length xs"
  by (induction xs) (simp_all add: store_float_def length_le_bytes)

lemma chunks4_store_floats: "chunks4 (concat (map store_float xs)) = map store_float xs"
  by (induction xs) (simp_all add: store_float_def le_bytes_def)

lemma load_store_floats: "map load_float (chunks4 (concat (map store_float xs))) = xs"
  by (simp add: chunks4_store_floats load_store_float map_idI)

lemma strncmp_eq:
  "length t = n \<Longrightarrow> length s = n \<Longrightarrow> 0 \<notin> set s \<Longrightarrow> (strncmp t s n = 0) = (t = s)"
proof (induction n arbitrary: t s)
  case 0
  then show ?case by simp
next
  case (Suc n)
  then obtain a t' b s' where ts: "t = a # t'" "s = b # s'"
    by (cases t; cases s) auto
  with Suc.prems have len: "length t' = n" "length s' = n" "0 \<notin> set s'" "b \<noteq> 0"
    by auto
  have ne: "a \<noteq> b \<Longrightarrow> int (unat a) - int (unat b) \<noteq> 0"
    by (simp add: word_uint_eq_iff)
  show ?case
    using Suc.IH [OF len(1,2,3)] len(4) ne by (simp add: ts Let_def)
qed

lemma flo_formats_simps:
  "flo_formats FF_FLO = [80, 73, 69, 72]" "flo_formats FF_FLOW = [80, 73, 69, 73]"
  by (simp_all add: flo_formats_def)

lemma strncmp_tag:
  "length t = 4 \<Longrightarrow> (strncmp t (flo_formats FF_FLO) 4 = 0) = (t = flo_formats FF_FLO)"
  "length t = 4 \<Longrightarrow> (strncmp t (flo_formats FF_FLOW) 4 = 0) = (t = flo_formats FF_FLOW)"
  by (simp_all add: strncmp_eq flo_formats_simps)

lemma fread_exact: "length a = sz * n \<Longrightarrow> 0 < sz \<Longrightarrow> fread sz n (a @ r) = (n, a, r)"
  by (simp add: fread_def)


lemma size_t_nonneg: "0 \<le> i \<Longrightarrow> i < 2 ^ 31 \<Longrightarrow> mul_size_t (size_t i) sizeof_float = 4 * nat i"
  by (simp add: mul_size_t_def size_t_def sizeof_float_def nat_mult_distrib)

lemma scale_sz_exact:
  assumes "0 < w" "0 < h" "f \<noteq> FF_LAST" "w * h * npb_of f < 2 ^ 31"
  shows "scale_sz f (wrap32 (w * h)) = w * h * npb_of f"
proof -
  have pos: "0 < w * h" using assms by simp
  have "1 \<le> npb_of f" by (cases f) (simp_all add: npb_of_def)
  then have "w * h * 1 \<le> w * h * npb_of f" using pos by (intro mult_left_mono) simp_all
  then have le: "w * h \<le> w * h * npb_of f" by simp
  have a: "wrap32 (w * h) = w * h"
    by (rule wrap32_id) (use pos le assms(4) in linarith)+
  have b: "wrap32 (w * h * npb_of f) = w * h * npb_of f"
    by (rule wrap32_id) (use pos le assms(4) in linarith)+
  show ?thesis using assms(3) b by (cases f) (simp_all add: scale_sz_def npb_of_def a)
qed

lemma format_of_tag:
  assumes "f \<noteq> FF_LAST"
  shows "(if strncmp (flo_formats f) (flo_formats FF_FLO) 4 = 0 then FF_FLO
          else if strncmp (flo_formats f) (flo_formats FF_FLOW) 4 = 0 then FF_FLOW else FF_LAST) = f"
  using assms by (cases f) (simp_all add: flo_formats_simps strncmp_eq)

lemma read_flow_fd_header:
  assumes "f \<noteq> FF_LAST" "- (2 ^ 31) \<le> w" "w < 2 ^ 31" "- (2 ^ 31) \<le> h" "h < 2 ^ 31"
  shows "read_flow_fd (flo_formats f @ store_int w @ store_int h @ p) =
    (if w \<le> 0 \<or> h \<le> 0 then Inl (Reported Invalid_width_or_height)
     else let sz = scale_sz f (wrap32 (w * h)); req = mul_size_t (size_t sz) sizeof_float in
       (case fread 1 req p of (nd, db, s4) \<Rightarrow>
          if malloc_null req \<and> 0 < nd then Inl (Fault Null_pointer_access)
          else if nd < req then Inl (Reported Incomplete_data)
          else Inr \<lparr>flo_w = w, flo_h = h, flo_fmt = f, flo_nmemb = sz,
                    flo_data = map load_float (chunks4 db)\<rparr>))"
proof -
  have len: "length (flo_formats f) = 4" using assms(1) by (cases f) (simp_all add: flo_formats_def)
  have t: "fread 1 4 (flo_formats f @ R) = (4, flo_formats f, R)" for R
    by (rule fread_exact) (simp_all add: len)
  have i: "fread sizeof_int 1 (store_int k @ R) = (1, store_int k, R)" for k R
    by (rule fread_exact) (simp_all add: sizeof_int_def length_store_int)
  have lw: "load_int (store_int w) = w" by (rule load_store_int [OF assms(2,3)])
  have lh: "load_int (store_int h) = h" by (rule load_store_int [OF assms(4,5)])
  show ?thesis
    unfolding read_flow_fd_def t i prod.case format_of_tag [OF assms(1)] lw lh
    using assms(1) by (simp add: Let_def)
qed

lemma dims_below_product:
  assumes "0 < w" "0 < h" "w * h * npb_of f < 2 ^ 31"
  shows "w < 2 ^ 31" "h < 2 ^ 31"
proof -
  have npb: "1 \<le> npb_of f" by (cases f) (simp_all add: npb_of_def)
  have "1 \<le> h * npb_of f" "1 \<le> w * npb_of f"
    using assms(1,2) npb
    by (simp_all add: mult_le_cancel_left1 order_less_le_trans less_1_mult pos_add_strict
        int_one_le_iff_zero_less)
  then have "w * 1 \<le> w * (h * npb_of f)" "h * 1 \<le> h * (w * npb_of f)"
    using assms(1,2) by (intro mult_left_mono; simp)+
  then show "w < 2 ^ 31" "h < 2 ^ 31"
    using assms(3) by (simp_all add: mult.assoc mult.left_commute)
qed

section \<open>What \<^verbatim>\<open>read_flow\<close> rejects\<close>

lemma read_flow_fd_bad_tag:
  assumes "4 \<le> length s" "take 4 s \<noteq> flo_formats FF_FLO" "take 4 s \<noteq> flo_formats FF_FLOW"
  shows "read_flow_fd s = Inl (Reported Invalid_file_type)"
proof -
  have t: "fread 1 4 s = (4, take 4 s, drop 4 s)" using assms(1) by (simp add: fread_def)
  have l: "length (take 4 s) = 4" using assms(1) by simp
  have "strncmp (take 4 s) (flo_formats FF_FLO) 4 \<noteq> 0" "strncmp (take 4 s) (flo_formats FF_FLOW) 4 \<noteq> 0"
    using assms(2,3) strncmp_tag [OF l] by simp_all
  then show ?thesis unfolding read_flow_fd_def t by (simp add: Let_def)
qed

lemma read_flow_fd_short_tag: "length s < 4 \<Longrightarrow> read_flow_fd s = Inl (Reported Could_not_read_file_header)"
  by (simp add: read_flow_fd_def fread_def)

lemma read_flow_fd_bad_dims:
  assumes "f \<noteq> FF_LAST" "- (2 ^ 31) \<le> w" "w < 2 ^ 31" "- (2 ^ 31) \<le> h" "h < 2 ^ 31" "w \<le> 0 \<or> h \<le> 0"
  shows "read_flow_fd (flo_formats f @ store_int w @ store_int h @ p) = Inl (Reported Invalid_width_or_height)"
  using assms(6) by (simp add: read_flow_fd_header [OF assms(1-5)])

lemma read_flow_fd_truncated:
  assumes "f \<noteq> FF_LAST" "0 < w" "0 < h" "w * h * npb_of f < 2 ^ 31"
    "int (length p) < w * h * npb_of f * 4"
  shows "read_flow_fd (flo_formats f @ store_int w @ store_int h @ p) = Inl (Reported Incomplete_data)"
proof -
  have npb: "1 \<le> npb_of f" by (cases f) (simp_all add: npb_of_def)
  have wh: "w < 2 ^ 31" "h < 2 ^ 31"
    using dims_below_product [OF assms(2,3,4)] by simp_all
  have lo: "- (2 ^ 31) \<le> w" "- (2 ^ 31) \<le> h" using assms(2,3) by simp_all
  have sz: "scale_sz f (wrap32 (w * h)) = w * h * npb_of f"
    by (rule scale_sz_exact [OF assms(2,3,1,4)])
  have n0: "0 \<le> w * h * npb_of f" using assms(2,3) npb by simp
  have req: "mul_size_t (size_t (w * h * npb_of f)) sizeof_float = 4 * nat (w * h * npb_of f)"
    by (rule size_t_nonneg [OF n0 assms(4)])
  have lt: "length p < 4 * nat (w * h * npb_of f)" using assms(5) n0 by linarith
  have m: "\<not> malloc_null (4 * nat (w * h * npb_of f))"
    using assms(4) n0 by (simp add: malloc_null_def PTRDIFF_MAX_def)
  have fr: "fread 1 (4 * nat (w * h * npb_of f)) p = (length p, p, [])"
    using lt by (simp add: fread_def)
  show ?thesis
    using assms(2,3) lt
    by (simp add: read_flow_fd_header [OF assms(1) lo(1) wh(1) lo(2) wh(2)] sz req m
        fr [unfolded One_nat_def] Let_def)
qed

text \<open>The three rejections together, for a header whose sample count fits an \<^verbatim>\<open>int\<close>.\<close>

lemma read_flow_fd_rejections:
  "(4 \<le> length s \<and> take 4 s \<noteq> flo_formats FF_FLO \<and> take 4 s \<noteq> flo_formats FF_FLOW
      \<longrightarrow> read_flow_fd s = Inl (Reported Invalid_file_type))
   \<and> (f \<noteq> FF_LAST \<and> - (2 ^ 31) \<le> w \<and> w < 2 ^ 31 \<and> - (2 ^ 31) \<le> h \<and> h < 2 ^ 31
        \<and> (w \<le> 0 \<or> h \<le> 0)
      \<longrightarrow> read_flow_fd (flo_formats f @ store_int w @ store_int h @ p)
            = Inl (Reported Invalid_width_or_height))
   \<and> (f' \<noteq> FF_LAST \<and> 0 < w' \<and> 0 < h' \<and> w' * h' * npb_of f' < 2 ^ 31
        \<and> int (length p') < w' * h' * npb_of f' * 4
      \<longrightarrow> read_flow_fd (flo_formats f' @ store_int w' @ store_int h' @ p')
            = Inl (Reported Incomplete_data))"
  using read_flow_fd_bad_tag [of s] read_flow_fd_bad_dims [of f w h p]
    read_flow_fd_truncated [of f' w' h' p']
  by blast

section \<open>Indices\<close>

lemma npb_of_cases: "npb_of f = 2 \<or> npb_of f = 3"
  by (cases f) (simp_all add: npb_of_def)

lemma cell_index_bounds:
  assumes "0 \<le> x" "x < w" "0 \<le> y" "y < h" "npb = 2 \<or> npb = 3"
  shows "0 \<le> cell_index w npb x y" "cell_index w npb x y + npb \<le> w * h * npb"
proof -
  have w0: "0 < w" using assms by linarith
  have "y + 1 \<le> h" using assms by simp
  then have "(y + 1) * w \<le> h * w" using w0 by (intro mult_right_mono) simp_all
  then have yw: "y * w + w \<le> w * h" by (simp add: algebra_simps)
  have yw0: "0 \<le> y * w" using assms w0 by simp
  then show "0 \<le> cell_index w npb x y" using assms by (auto simp: cell_index_def)
  have "y * w + x + 1 \<le> w * h" using yw assms by linarith
  then have "(y * w + x + 1) * npb \<le> w * h * npb" using assms(5) by (intro mult_right_mono) auto
  then show "cell_index w npb x y + npb \<le> w * h * npb"
    by (simp add: cell_index_def algebra_simps)
qed

lemma wrap32_id': "0 \<le> i \<Longrightarrow> i < 2 ^ 31 \<Longrightarrow> wrap32 i = i"
  by (simp add: wrap32_def)

lemma wrap32_high:
  assumes "2 ^ 31 \<le> i" "i < 2 ^ 32"
  shows "wrap32 i = i - 2 ^ 32"
proof -
  have "(i + 2 ^ 31) mod 2 ^ 32 = (i - 2 ^ 31 + 2 ^ 32) mod 2 ^ 32" by (simp add: add.commute)
  also have "\<dots> = (i - 2 ^ 31) mod 2 ^ 32" by (simp only: mod_add_self2)
  also have "\<dots> = i - 2 ^ 31" using assms by (intro mod_pos_pos_trivial) simp_all
  finally show ?thesis by (simp add: wrap32_def)
qed

lemma IDX_exact:
  assumes "0 \<le> x" "x < flo_w flow" "0 \<le> y" "y < h" "npb = 2 \<or> npb = 3"
    "flo_w flow * h * npb < 2 ^ 31"
  shows "U_IDX flow x y npb = cell_index (flo_w flow) npb x y"
    "V_IDX flow x y npb = cell_index (flo_w flow) npb x y + 1"
    "C_IDX flow x y npb = cell_index (flo_w flow) npb x y + 2"
proof -
  let ?w = "flo_w flow"
  note b = cell_index_bounds [OF assms(1-5)]
  have w0: "0 < ?w" using assms by linarith
  have h0: "0 < h" using assms by linarith
  have n0: "0 < npb" using assms(5) by auto
  have "(?w * npb) * 1 \<le> (?w * npb) * h" using h0 w0 n0 by (intro mult_left_mono) simp_all
  also have "(?w * npb) * h = ?w * h * npb" by (simp add: ac_simps)
  finally have "?w * npb \<le> ?w * h * npb" by simp
  then have wn1: "?w * npb < 2 ^ 31" using assms(6) by linarith
  have wn2: "0 \<le> ?w * npb" using w0 n0 by simp
  note wn = wn1 wn2
  have xn: "0 \<le> x * npb" "x * npb < ?w * npb" using assms(1,2) n0 by simp_all
  have yw: "0 \<le> y * (?w * npb)" using assms(3) wn(2) by simp
  have e: "y * (?w * npb) + x * npb = cell_index ?w npb x y" by (simp add: cell_index_def algebra_simps)
  have a: "wrap32 (?w * npb) = ?w * npb" using wn by (intro wrap32_id') simp_all
  have c: "wrap32 (x * npb) = x * npb" using xn wn by (intro wrap32_id') simp_all
  have lt: "y * (?w * npb) + x * npb + npb \<le> ?w * h * npb" using b(2) e by simp
  have d: "wrap32 (y * (?w * npb)) = y * (?w * npb)" using yw xn lt n0 assms(6) by (intro wrap32_id') linarith+
  have s: "wrap32 (y * (?w * npb) + x * npb) = y * (?w * npb) + x * npb"
    using yw xn lt n0 assms(6) by (intro wrap32_id') linarith+
  have n2: "2 \<le> npb" using assms(5) by auto
  have s1: "wrap32 (y * (?w * npb) + x * npb + 1) = y * (?w * npb) + x * npb + 1"
    using yw xn lt n2 assms(6) by (intro wrap32_id') linarith+
  have s2: "wrap32 (y * (?w * npb) + x * npb + 2) = y * (?w * npb) + x * npb + 2"
    using yw xn lt n2 assms(6) by (intro wrap32_id') linarith+
  have se: "wrap32 (cell_index ?w npb x y) = cell_index ?w npb x y" using s e by simp
  show "U_IDX flow x y npb = cell_index ?w npb x y" by (simp add: U_IDX_def a c d s e se)
  have se1: "wrap32 (cell_index ?w npb x y + 1) = cell_index ?w npb x y + 1" using s1 e by simp
  have se2: "wrap32 (cell_index ?w npb x y + 2) = cell_index ?w npb x y + 2" using s2 e by simp
  show "V_IDX flow x y npb = cell_index ?w npb x y + 1" by (simp add: V_IDX_def a c d e se se1)
  show "C_IDX flow x y npb = cell_index ?w npb x y + 2" by (simp add: C_IDX_def a c d e se se2)
qed


lemma valid_flowD:
  assumes "valid_flow f"
  shows "0 < flo_w f" "0 < flo_h f" "flo_fmt f \<noteq> FF_LAST"
    "flo_w f * flo_h f * npb_of (flo_fmt f) < 2 ^ 31"
    "flo_nmemb f = flo_w f * flo_h f * npb_of (flo_fmt f)"
    "int (length (flo_data f)) = flo_w f * flo_h f * npb_of (flo_fmt f)"
  using assms by (simp_all add: valid_flow_def)

lemma same_shape_refl: "same_shape a a"
  by (simp add: same_shape_def)

lemma same_shape_trans: "same_shape a b \<Longrightarrow> same_shape b c \<Longrightarrow> same_shape a c"
  by (simp add: same_shape_def)

lemma quot_rem_unique:
  fixes a a' n r r' :: int
  assumes "0 \<le> r" "r < n" "0 \<le> r'" "r' < n" "a * n + r = a' * n + r'"
  shows "a = a' \<and> r = r'"
proof -
  have n0: "0 \<le> n" using assms by linarith
  have "\<not> a < a'"
  proof
    assume "a < a'"
    then have "(a + 1) * n \<le> a' * n" using n0 by (intro mult_right_mono) simp_all
    then show False using assms by (simp add: algebra_simps)
  qed
  moreover have "\<not> a' < a"
  proof
    assume "a' < a"
    then have "(a' + 1) * n \<le> a * n" using n0 by (intro mult_right_mono) simp_all
    then show False using assms by (simp add: algebra_simps)
  qed
  ultimately have "a = a'" by simp
  then show ?thesis using assms(5) by simp
qed

lemma cell_index_inj:
  assumes "0 \<le> x" "x < w" "0 \<le> x'" "x' < w" "0 \<le> ch" "ch < npb" "0 \<le> ch'" "ch' < npb"
    "cell_index w npb x y + ch = cell_index w npb x' y' + ch'"
  shows "x = x' \<and> y = y' \<and> ch = ch'"
proof -
  from quot_rem_unique [OF assms(5-8) assms(9) [unfolded cell_index_def]]
  have 1: "y * w + x = y' * w + x'" and 2: "ch = ch'" by simp_all
  from quot_rem_unique [OF assms(1-4) 1] 2 show ?thesis by simp
qed

lemma store_same_shape: "store a i v = Inr b \<Longrightarrow> same_shape a b"
  by (auto simp: store_def same_shape_def split: if_splits)

lemma store_ok:
  "0 \<le> i \<Longrightarrow> i < int (length (flo_data a)) \<Longrightarrow> store a i v = Inr (a\<lparr>flo_data := (flo_data a)[nat i := v]\<rparr>)"
  by (simp add: store_def)

lemma same_shapeD:
  assumes "same_shape a b"
  shows "flo_w b = flo_w a" "flo_h b = flo_h a" "flo_fmt b = flo_fmt a" "flo_nmemb b = flo_nmemb a"
    "length (flo_data b) = length (flo_data a)"
  using assms by (simp_all add: same_shape_def)

lemma store_faults: "store a i v = Inl e \<Longrightarrow> e = Out_of_bounds_write"
  by (auto simp: store_def split: if_splits)

lemma floor_rat_numeral_divide:
  "\<lfloor>numeral a / numeral b :: rat\<rfloor> = numeral a div numeral b"
  "\<lfloor>1 / numeral b :: rat\<rfloor> = 1 div numeral b"
  "\<lfloor>- (numeral a / numeral b) :: rat\<rfloor> = - numeral a div numeral b"
  using floor_divide_of_int_eq [of "numeral a" "numeral b", where ?'a = rat]
    floor_divide_of_int_eq [of 1 "numeral b", where ?'a = rat]
    floor_divide_of_int_eq [of "- numeral a" "numeral b", where ?'a = rat]
  by simp_all


lemma int_div_less:
  fixes a b c :: int
  assumes "0 < c" "a < b * c"
  shows "a div c < b"
proof (rule ccontr)
  assume "\<not> a div c < b"
  then have "b * c \<le> a div c * c" using assms(1) by (intro mult_right_mono) simp_all
  moreover have "a div c * c + a mod c = a" by simp
  moreover have "0 \<le> a mod c" using assms(1) by simp
  ultimately show False using assms(2) by linarith
qed

lemma index_decode:
  fixes i w h npb :: int
  assumes "0 \<le> i" "i < w * h * npb" "0 < w" "0 < npb"
  shows "0 \<le> i div npb mod w" "i div npb mod w < w" "0 \<le> i div npb div w" "i div npb div w < h"
    "0 \<le> i mod npb" "i mod npb < npb"
    "cell_index w npb (i div npb mod w) (i div npb div w) + i mod npb = i"
proof -
  have q0: "0 \<le> i div npb" using assms(1,4) by (simp add: pos_imp_zdiv_nonneg_iff)
  have a: "i div npb < w * h" by (rule int_div_less [OF assms(4,2)])
  have b: "i div npb < h * w" using a by (simp add: mult.commute)
  show "i div npb div w < h" by (rule int_div_less [OF assms(3) b])
  show "0 \<le> i div npb div w" using q0 assms(3) by (simp add: pos_imp_zdiv_nonneg_iff)
  show "0 \<le> i div npb mod w" "i div npb mod w < w" using assms(3) by simp_all
  show "0 \<le> i mod npb" "i mod npb < npb" using assms(4) by simp_all
  show "cell_index w npb (i div npb mod w) (i div npb div w) + i mod npb = i"
    by (simp add: cell_index_def)
qed


lemma upt_18: "[0..<18] = [0,1,2,3,4,5,6,7,8,9,10,11,12,13,14,15,16,17]"
  by (simp add: upt_conv_Cons)

lemma upt_32: "[0..<32] = [0,1,2,3,4,5,6,7,8,9,10,11,12,13,14,15,16,17,18,19,20,21,22,23,24,25,
    26,27,28,29,30,31]"
  by (simp add: upt_conv_Cons)


section \<open>Rounding to binary32\<close>

lemma round_even_of_int: "round_even (of_int k) = k"
  by (simp add: round_even_def)

lemma round_even_error: "\<bar>of_int (round_even t) - t\<bar> \<le> 1 / 2"
proof -
  define n where "n = \<lfloor>t\<rfloor>"
  have b: "of_int n \<le> t" "t < of_int n + 1" unfolding n_def by linarith+
  consider "t - of_int n < 1 / 2" | "1 / 2 < t - of_int n" | "t - of_int n = 1 / 2" by linarith
  then show ?thesis
  proof cases
    case 1
    then have "round_even t = n" by (simp add: round_even_def n_def)
    then show ?thesis using b 1 by simp
  next
    case 2
    then have "round_even t = n + 1" by (simp add: round_even_def n_def Let_def)
    then show ?thesis using b 2 by simp
  next
    case 3
    then have "round_even t = n \<or> round_even t = n + 1" by (simp add: round_even_def n_def Let_def)
    then show ?thesis using b 3 by auto
  qed
qed

lemma float_exp_le: "float_exp r \<le> 253"
  by (simp add: float_exp_def)

lemma float_exp_lower: "float_exp r = 0 \<or> 2 ^ (float_exp r + 23) \<le> \<bar>r\<bar> * 2 ^ 149"
proof (cases "float_exp r = 0")
  case False
  define R where "R = \<lfloor>\<bar>r\<bar> * 2 ^ 149\<rfloor>"
  define b where "b = bitlen R"
  have n: "float_exp r = min 253 (nat (b - 24))" by (simp add: float_exp_def R_def b_def)
  have b24: "24 < b" using False n by (cases "24 < b") simp_all
  have "R \<noteq> 0" using b24 by (auto simp: b_def)
  moreover have "0 \<le> R" by (simp add: R_def)
  ultimately have "0 < R" by simp
  from bitlen_bounds [OF this] have lo: "2 ^ nat (b - 1) \<le> R" by (simp add: b_def)
  have "float_exp r + 23 \<le> nat (b - 1)" using n b24 by simp
  then have "(2::int) ^ (float_exp r + 23) \<le> 2 ^ nat (b - 1)" by (intro power_increasing) simp_all
  then have "(2::int) ^ (float_exp r + 23) \<le> R" by (rule order_trans [OF _ lo])
  then have "(of_int ((2::int) ^ (float_exp r + 23)) :: rat) \<le> of_int R" by (simp only: of_int_le_iff)
  also have "\<dots> \<le> \<bar>r\<bar> * 2 ^ 149" by (simp add: R_def)
  finally show ?thesis by simp
qed simp

lemma float_exp_upper: "float_exp r = 253 \<or> \<bar>r\<bar> * 2 ^ 149 < 2 ^ (float_exp r + 24)"
proof (cases "float_exp r = 253")
  case False
  define R where "R = \<lfloor>\<bar>r\<bar> * 2 ^ 149\<rfloor>"
  define b where "b = bitlen R"
  have n: "float_exp r = min 253 (nat (b - 24))" by (simp add: float_exp_def R_def b_def)
  then have n': "float_exp r = nat (b - 24)" using False by linarith
  have R0: "0 \<le> R" by (simp add: R_def)
  have "R < 2 ^ nat b"
  proof (cases "R = 0")
    case True then show ?thesis by simp
  next
    case False
    then have "0 < R" using R0 by simp
    from bitlen_bounds [OF this] show ?thesis by (simp add: b_def)
  qed
  moreover have "nat b \<le> float_exp r + 24" using n' by linarith
  then have "(2::int) ^ nat b \<le> 2 ^ (float_exp r + 24)" by (intro power_increasing) simp_all
  ultimately have "R < 2 ^ (float_exp r + 24)" by linarith
  then have "\<bar>r\<bar> * 2 ^ 149 < of_int (2 ^ (float_exp r + 24))"
    unfolding R_def by (simp only: floor_less_iff)
  then show ?thesis by simp
qed simp

lemma round32_exact:
  assumes "\<bar>m\<bar> < 2 ^ 24" "n \<le> 253"
  shows "round32 (of_int m * 2 ^ n / 2 ^ 149) = Finite (of_int m * 2 ^ n / 2 ^ 149)"
proof -
  define r :: rat where "r = of_int m * 2 ^ n / 2 ^ 149"
  define e where "e = float_exp r"
  have r149: "\<bar>r\<bar> * 2 ^ 149 = of_int \<bar>m\<bar> * 2 ^ n" by (simp add: r_def abs_mult)
  have en: "e \<le> n"
  proof (cases "e = 0")
    case False
    then have "2 ^ (e + 23) \<le> \<bar>r\<bar> * 2 ^ 149" using float_exp_lower [of r] by (simp add: e_def)
    also have "\<dots> = of_int \<bar>m\<bar> * 2 ^ n" by (rule r149)
    also have "\<dots> < 2 ^ 24 * 2 ^ n"
    proof -
      have "(of_int \<bar>m\<bar> :: rat) < of_int (2 ^ 24)" using assms(1) by (simp only: of_int_less_iff)
      then show ?thesis by simp
    qed
    finally have "(2::rat) ^ (e + 23) < 2 ^ (n + 24)" by (simp add: power_add mult.commute)
    then have "e + 23 < n + 24" by (simp only: power_strict_increasing_iff) 
    then show ?thesis by simp
  qed simp
  have q: "quantum r = 2 ^ e / 2 ^ 149" by (simp add: quantum_def e_def)
  obtain k where k: "n = e + k" using en by (auto simp: le_iff_add)
  have d: "r / quantum r = of_int (m * 2 ^ k)" unfolding q by (simp add: r_def k power_add)
  have v: "nearest r = r"
  proof -
    have "(of_int (round_even (r / quantum r)) :: rat) = of_int (m * 2 ^ k)"
      by (simp only: d round_even_of_int)
    then have "nearest r = of_int (m * 2 ^ k) * quantum r" by (simp only: nearest_def)
    also have "\<dots> = r" unfolding q by (simp add: r_def k power_add)
    finally show ?thesis .
  qed
  have "\<bar>r\<bar> * 2 ^ 149 < 2 ^ 24 * 2 ^ 253"
  proof -
    have "(of_int \<bar>m\<bar> :: rat) < of_int (2 ^ 24)" using assms(1) by (simp only: of_int_less_iff)
    then have a: "(of_int \<bar>m\<bar> :: rat) < 2 ^ 24" by simp
    have "(2::rat) ^ n \<le> 2 ^ 253" using assms(2) by (intro power_increasing) simp_all
    then have "of_int \<bar>m\<bar> * (2::rat) ^ n \<le> of_int \<bar>m\<bar> * 2 ^ 253" by (intro mult_left_mono) simp_all
    also have "\<dots> < 2 ^ 24 * 2 ^ 253" using a by (intro mult_strict_right_mono) simp_all
    finally show ?thesis unfolding r149 .
  qed
  then have "\<bar>r\<bar> < 2 ^ 128" by simp
  then have "\<not> 2 ^ 128 \<le> r" "\<not> r \<le> - (2 ^ 128)" by linarith+
  then show ?thesis
    unfolding r_def [symmetric] round32_def Let_def v by (simp only: if_False)
qed

lemma round_even_sign:
  "0 \<le> t \<Longrightarrow> 0 \<le> round_even t" "t \<le> 0 \<Longrightarrow> round_even t \<le> 0"
proof -
  have e: "\<bar>of_int (round_even t) - t\<bar> \<le> 1 / 2" by (rule round_even_error)
  show "0 \<le> round_even t" if "0 \<le> t"
  proof -
    have "- 1 < (of_int (round_even t) :: rat)" using e that by linarith
    then have "(of_int (- 1) :: rat) < of_int (round_even t)" by simp
    then have "- 1 < round_even t" by (simp only: of_int_less_iff)
    then show ?thesis by simp
  qed
  show "round_even t \<le> 0" if "t \<le> 0"
  proof -
    have "(of_int (round_even t) :: rat) < 1" using e that by linarith
    then have "(of_int (round_even t) :: rat) < of_int 1" by simp
    then have "round_even t < 1" by (simp only: of_int_less_iff)
    then show ?thesis by simp
  qed
qed

lemma round_even_small: "\<bar>t\<bar> \<le> 1 / 2 \<Longrightarrow> round_even t = 0"
proof -
  assume a: "\<bar>t\<bar> \<le> 1 / 2"
  consider "0 \<le> t" "t < 1 / 2" | "t = 1 / 2" | "t < 0" "- (1 / 2) < t" | "t = - (1 / 2)"
    using a by fastforce
  then show ?thesis
  proof cases
    case 1
    then have "\<lfloor>t\<rfloor> = 0" by linarith
    then show ?thesis using 1 by (simp add: round_even_def)
  next
    case 2
    have "\<lfloor>1 / 2 :: rat\<rfloor> = 0" by linarith
    then show ?thesis unfolding 2 by (simp add: round_even_def)
  next
    case 3
    then have "\<lfloor>t\<rfloor> = - 1" by linarith
    then show ?thesis using 3 by (simp add: round_even_def)
  next
    case 4
    have "\<lfloor>- (1 / 2) :: rat\<rfloor> = - 1" by linarith
    then show ?thesis unfolding 4 by (simp add: round_even_def)
  qed
qed

lemma quantum_pos: "0 < quantum r"
  by (simp add: quantum_def)

lemma round32_finiteI: "\<bar>nearest r\<bar> < 2 ^ 128 \<Longrightarrow> round32 r = Finite (nearest r)"
  unfolding round32_def Let_def by (simp add: abs_if split: if_splits)

lemma round32_finiteD:
  assumes "round32 r = Finite v"
  shows "v = nearest r" "\<bar>v\<bar> < 2 ^ 128"
  using assms unfolding round32_def Let_def by (simp_all add: abs_if split: if_splits)

lemma nearest_error: "\<bar>nearest r - r\<bar> \<le> quantum r / 2"
proof -
  let ?q = "quantum r"
  have q: "0 < ?q" by (rule quantum_pos)
  have "\<bar>of_int (round_even (r / ?q)) - r / ?q\<bar> * ?q \<le> 1 / 2 * ?q"
    using round_even_error [of "r / ?q"] q by (intro mult_right_mono) simp_all
  moreover have "\<bar>of_int (round_even (r / ?q)) - r / ?q\<bar> * ?q
      = \<bar>of_int (round_even (r / ?q)) * ?q - r\<bar>"
  proof -
    have "\<bar>of_int (round_even (r / ?q)) - r / ?q\<bar> * ?q
        = \<bar>(of_int (round_even (r / ?q)) - r / ?q) * ?q\<bar>"
      using q by (simp add: abs_mult)
    also have "(of_int (round_even (r / ?q)) - r / ?q) * ?q = of_int (round_even (r / ?q)) * ?q - r"
      using q by (simp add: algebra_simps)
    finally show ?thesis .
  qed
  ultimately show ?thesis by (simp add: nearest_def)
qed

lemma float_grid:
  assumes "round32 k = Finite k"
  shows "\<exists>K :: int. k * 2 ^ 149 = of_int K"
proof -
  have "k = nearest k" using round32_finiteD(1) [OF assms] .
  then have "k * 2 ^ 149 = of_int (round_even (k / quantum k)) * quantum k * 2 ^ 149"
    by (simp add: nearest_def)
  also have "\<dots> = of_int (round_even (k / quantum k) * 2 ^ float_exp k)"
    by (simp add: quantum_def)
  finally show ?thesis by blast
qed

lemma int_abs_bound:
  fixes N :: int and t :: rat
  assumes "\<bar>of_int N - t\<bar> \<le> 1 / 2" "\<bar>t\<bar> < of_int B"
  shows "\<bar>N\<bar> \<le> B"
proof -
  have "\<bar>(of_int N :: rat)\<bar> < of_int B + 1" using assms by linarith
  then have "(of_int \<bar>N\<bar> :: rat) < of_int (B + 1)" by simp
  then have "\<bar>N\<bar> < B + 1" by (simp only: of_int_less_iff)
  then show ?thesis by simp
qed

lemma round32_idem:
  assumes "round32 r = Finite v"
  shows "round32 v = Finite v"
proof -
  define e where "e = float_exp r"
  define N where "N = round_even (r / quantum r)"
  have q: "quantum r = 2 ^ e / 2 ^ 149" by (simp add: quantum_def e_def)
  note d = round32_finiteD [OF assms]
  have v: "v = of_int N * 2 ^ e / 2 ^ 149" using d(1) by (simp add: nearest_def N_def q)
  have e253: "e \<le> 253" unfolding e_def by (rule float_exp_le)
  have vN: "\<bar>v\<bar> * 2 ^ 149 = of_int \<bar>N\<bar> * 2 ^ e" by (simp add: v abs_mult)
  have N24: "\<bar>N\<bar> \<le> 2 ^ 24" "\<bar>N\<bar> = 2 ^ 24 \<Longrightarrow> e < 253"
  proof -
    have big: "\<bar>N\<bar> < 2 ^ 24" if "e = 253"
    proof -
      have "of_int \<bar>N\<bar> * (2::rat) ^ 253 = \<bar>v\<bar> * 2 ^ 149" using vN that by simp
      also have "\<dots> < 2 ^ 128 * 2 ^ 149" using d(2) by (intro mult_strict_right_mono) simp_all
      also have "\<dots> = 2 ^ 24 * 2 ^ 253" by simp
      finally have "(of_int \<bar>N\<bar> :: rat) < 2 ^ 24" by (simp only: mult_less_cancel_right_pos zero_less_power zero_less_numeral)
      then have "(of_int \<bar>N\<bar> :: rat) < of_int (2 ^ 24)" by simp
      then show ?thesis by (simp only: of_int_less_iff)
    qed
    show "\<bar>N\<bar> = 2 ^ 24 \<Longrightarrow> e < 253" using big e253 by (cases "e = 253") simp_all
    show "\<bar>N\<bar> \<le> 2 ^ 24"
    proof (cases "e = 253")
      case True then show ?thesis using big by simp
    next
      case False
      then have "\<bar>r\<bar> * 2 ^ 149 < 2 ^ (e + 24)" using float_exp_upper [of r] by (simp add: e_def)
      then have "\<bar>r\<bar> * 2 ^ 149 / 2 ^ e < 2 ^ 24" by (simp add: power_add field_simps)
      moreover have "\<bar>r / quantum r\<bar> = \<bar>r\<bar> * 2 ^ 149 / 2 ^ e" by (simp add: q abs_mult)
      ultimately have "\<bar>r / quantum r\<bar> < of_int (2 ^ 24)" by simp
      from int_abs_bound [OF round_even_error this] show ?thesis by (simp add: N_def)
    qed
  qed
  show ?thesis
  proof (cases "\<bar>N\<bar> < 2 ^ 24")
    case True
    from round32_exact [OF True e253] show ?thesis by (simp add: v)
  next
    case False
    then have a: "\<bar>N\<bar> = 2 ^ 24" using N24(1) by simp
    then have e1: "e + 1 \<le> 253" using N24(2) by simp
    have "N = 2 ^ 24 \<or> N = - (2 ^ 24)" using a by (auto simp: abs_if split: if_splits)
    then show ?thesis
    proof
      assume "N = 2 ^ 24"
      with round32_exact [of "2 ^ 23" "e + 1", OF _ e1] show ?thesis by (simp add: v)
    next
      assume "N = - (2 ^ 24)"
      with round32_exact [of "- (2 ^ 23)" "e + 1", OF _ e1] show ?thesis by (simp add: v)
    qed
  qed
qed

lemma round32_attenuate:
  assumes "round32 k = Finite k" "k \<noteq> 0" "0 \<le> c" "c \<le> 1 / 2"
  shows "\<exists>v. round32 (c * k) = Finite v \<and> \<bar>v\<bar> < \<bar>k\<bar> \<and> (0 < k \<longrightarrow> 0 \<le> v) \<and> (k < 0 \<longrightarrow> v \<le> 0)"
proof -
  define r where "r = c * k"
  define e where "e = float_exp r"
  define v where "v = nearest r"
  have q: "quantum r = 2 ^ e / 2 ^ 149" by (simp add: quantum_def e_def)
  have qp: "0 < quantum r" by (rule quantum_pos)
  have k128: "\<bar>k\<bar> < 2 ^ 128" using round32_finiteD(2) [OF assms(1)] .
  have rk: "\<bar>r\<bar> \<le> \<bar>k\<bar> / 2"
  proof -
    have "\<bar>r\<bar> = c * \<bar>k\<bar>" using assms(3) by (simp add: r_def abs_mult)
    also have "\<dots> \<le> 1 / 2 * \<bar>k\<bar>" using assms(4) by (intro mult_right_mono) simp_all
    finally show ?thesis by simp
  qed
  have er: "\<bar>v - r\<bar> \<le> quantum r / 2" unfolding v_def by (rule nearest_error)
  have kpos: "0 < \<bar>k\<bar>" using assms(2) by simp
  have lt: "\<bar>v\<bar> < \<bar>k\<bar>"
  proof (cases "e = 0")
    case False
    then have "2 ^ (e + 23) \<le> \<bar>r\<bar> * 2 ^ 149" using float_exp_lower [of r] by (simp add: e_def)
    then have "2 ^ e * 2 ^ 23 / 2 ^ 149 \<le> \<bar>r\<bar>" by (simp add: power_add field_simps)
    then have "quantum r * 2 ^ 23 \<le> \<bar>r\<bar>" by (simp add: q)
    then have "quantum r \<le> \<bar>r\<bar>" using qp by simp
    then show ?thesis using er rk kpos by linarith
  next
    case True
    then have q0: "quantum r = 1 / 2 ^ 149" by (simp add: q)
    obtain K :: int where K: "k * 2 ^ 149 = of_int K" using float_grid [OF assms(1)] by blast
    have K0: "K \<noteq> 0" using K assms(2) by auto
    show ?thesis
    proof (cases "\<bar>K\<bar> = 1")
      case True
      then have "\<bar>of_int K :: rat\<bar> = 1" by (auto simp: abs_if split: if_splits)
      then have k1: "\<bar>k\<bar> * 2 ^ 149 = 1" using K by (simp add: abs_mult [symmetric])
      have "\<bar>r / quantum r\<bar> = \<bar>r\<bar> * 2 ^ 149" unfolding q0 by (simp add: abs_mult)
      moreover have "\<bar>r\<bar> = c * \<bar>k\<bar>" using assms(3) by (simp add: r_def abs_mult)
      ultimately have "\<bar>r / quantum r\<bar> = c * (\<bar>k\<bar> * 2 ^ 149)" by simp
      then have "\<bar>r / quantum r\<bar> \<le> 1 / 2" using assms(4) k1 by simp
      then have "round_even (r / quantum r) = 0" by (rule round_even_small)
      then have "v = 0" by (simp add: v_def nearest_def)
      then show ?thesis using kpos by simp
    next
      case False
      then have "2 \<le> \<bar>K\<bar>" using K0 by linarith
      then have "(of_int 2 :: rat) \<le> of_int \<bar>K\<bar>" by (simp only: of_int_le_iff)
      then have "2 \<le> \<bar>k\<bar> * 2 ^ 149" using K by (simp add: abs_mult [symmetric])
      then have "2 / 2 ^ 149 \<le> \<bar>k\<bar>" by (simp add: field_simps)
      then have "quantum r \<le> \<bar>k\<bar> / 2" by (simp add: q0)
      then show ?thesis using er rk kpos by linarith
    qed
  qed
  then have "\<bar>nearest r\<bar> < 2 ^ 128" using k128 by (simp add: v_def)
  then have f: "round32 r = Finite v" unfolding v_def by (rule round32_finiteI)
  have s1: "0 \<le> v" if "0 < k"
  proof -
    have "0 \<le> r / quantum r" using that assms(3) qp by (simp add: r_def)
    then have "0 \<le> round_even (r / quantum r)" by (rule round_even_sign)
    then show ?thesis using qp by (simp add: v_def nearest_def)
  qed
  have s2: "v \<le> 0" if "k < 0"
  proof -
    have "r \<le> 0" using that assms(3) by (simp add: r_def mult_nonneg_nonpos)
    then have "r / quantum r \<le> 0" using qp by (simp add: divide_nonpos_pos)
    then have "round_even (r / quantum r) \<le> 0" by (rule round_even_sign)
    then have "(of_int (round_even (r / quantum r)) :: rat) \<le> 0" by simp
    then show ?thesis using qp by (simp add: v_def nearest_def mult_nonpos_nonneg)
  qed
  show ?thesis using f lt s1 s2 unfolding r_def by blast
qed

section \<open>The loop nest\<close>

lemma load_valid:
  assumes "valid_flow f" "0 \<le> ix" "ix < flo_w f" "0 \<le> iy" "iy < flo_h f"
  shows "load f (U_IDX f ix iy (npb_of (flo_fmt f)))
      = Inr (flo_data f ! nat (cell_index (flo_w f) (npb_of (flo_fmt f)) ix iy + 0))"
    "load f (V_IDX f ix iy (npb_of (flo_fmt f)))
      = Inr (flo_data f ! nat (cell_index (flo_w f) (npb_of (flo_fmt f)) ix iy + 1))"
    "flo_fmt f = FF_FLOW \<Longrightarrow> load f (C_IDX f ix iy (npb_of (flo_fmt f)))
      = Inr (flo_data f ! nat (cell_index (flo_w f) (npb_of (flo_fmt f)) ix iy + 2))"
proof -
  note v = valid_flowD [OF assms(1)]
  note i = IDX_exact [OF assms(2-5) npb_of_cases v(4)]
  note b = cell_index_bounds [OF assms(2-5) npb_of_cases, of "flo_fmt f"]
  have n2: "2 \<le> npb_of (flo_fmt f)" using npb_of_cases [of "flo_fmt f"] by auto
  show "load f (U_IDX f ix iy (npb_of (flo_fmt f)))
      = Inr (flo_data f ! nat (cell_index (flo_w f) (npb_of (flo_fmt f)) ix iy + 0))"
    unfolding i load_def using b n2 v(6) assms by simp
  show "load f (V_IDX f ix iy (npb_of (flo_fmt f)))
      = Inr (flo_data f ! nat (cell_index (flo_w f) (npb_of (flo_fmt f)) ix iy + 1))"
    unfolding i load_def using b n2 v(6) assms by simp
  show "load f (C_IDX f ix iy (npb_of (flo_fmt f)))
      = Inr (flo_data f ! nat (cell_index (flo_w f) (npb_of (flo_fmt f)) ix iy + 2))"
    if "flo_fmt f = FF_FLOW"
  proof -
    have "npb_of (flo_fmt f) = 3" using that by (simp add: npb_of_def)
    then show ?thesis unfolding i load_def using b v(6) assms by simp
  qed
qed

lemma corner_skipped:
  "flo_w f \<le> ix \<or> flo_h f \<le> iy \<Longrightarrow> corner f fmt npb wt iy wy ix wx acc = Inr acc"
  by (cases acc) (auto simp: corner_def)

lemma accum_skipped:
  "flo_w f \<le> ix \<or> flo_h f \<le> iy \<Longrightarrow> accum f acc wt ix iy ch = acc"
  by (auto simp: accum_def)

lemma corner_valid:
  assumes "valid_flow f" "0 \<le> ix" "0 \<le> iy" "wx = 0 \<or> wx = 1" "wy = 0 \<or> wy = 1"
  shows "corner f (flo_fmt f) (npb_of (flo_fmt f)) wt iy wy ix wx (u, v, c) =
    Inr (accum f u (wt ! nat wx ! nat wy) ix iy 0,
         accum f v (wt ! nat wx ! nat wy) ix iy 1,
         if flo_fmt f = FF_FLOW then accum f c (wt ! nat wx ! nat wy) ix iy 2 else c)"
proof (cases "ix < flo_w f \<and> iy < flo_h f")
  case True
  then have t: "ix < flo_w f" "iy < flo_h f" by simp_all
  note l = load_valid [OF assms(1,2) t(1) assms(3) t(2)]
  have wa: "weight_at wt wx wy = Inr (wt ! nat wx ! nat wy)"
    using assms(4,5) by (auto simp: weight_at_def)
  show ?thesis
    unfolding corner_def prod.case wa l(1,2) using t l(3) by (simp add: accum_def)
next
  case False
  then show ?thesis by (auto simp: corner_def accum_def)
qed

lemma corner_loop_x_done: "kx2 \<le> ix \<Longrightarrow> corner_loop_x f fmt npb wt kx2 iy wy ix wx acc = Inr acc"
  by (subst corner_loop_x.simps) simp

lemma corner_loop_x_step:
  "ix < kx2 \<Longrightarrow> corner_loop_x f fmt npb wt kx2 iy wy ix wx acc =
    (case corner f fmt npb wt iy wy ix wx acc of Inl e \<Rightarrow> Inl e
     | Inr acc' \<Rightarrow> corner_loop_x f fmt npb wt kx2 iy wy (ix + 1) (wx + 1) acc')"
  by (subst corner_loop_x.simps) simp

lemma corner_loop_y_done: "ky2 \<le> iy \<Longrightarrow> corner_loop_y f fmt npb wt kx1 kx2 ky2 iy wy acc = Inr acc"
  by (subst corner_loop_y.simps) simp

lemma corner_loop_y_step:
  "iy < ky2 \<Longrightarrow> corner_loop_y f fmt npb wt kx1 kx2 ky2 iy wy acc =
    (case corner_loop_x f fmt npb wt kx2 iy wy kx1 0 acc of Inl e \<Rightarrow> Inl e
     | Inr acc' \<Rightarrow> corner_loop_y f fmt npb wt kx1 kx2 ky2 (iy + 1) (wy + 1) acc')"
  by (subst corner_loop_y.simps) simp

lemma corner_loop_x_valid:
  assumes "valid_flow f" "0 \<le> kx1" "0 \<le> iy" "wy = 0 \<or> wy = 1"
  shows "corner_loop_x f (flo_fmt f) (npb_of (flo_fmt f)) wt (kx1 + 2) iy wy kx1 0 (u, v, c) =
    Inr (accum f (accum f u (wt ! 0 ! nat wy) kx1 iy 0) (wt ! 1 ! nat wy) (kx1 + 1) iy 0,
         accum f (accum f v (wt ! 0 ! nat wy) kx1 iy 1) (wt ! 1 ! nat wy) (kx1 + 1) iy 1,
         if flo_fmt f = FF_FLOW
         then accum f (accum f c (wt ! 0 ! nat wy) kx1 iy 2) (wt ! 1 ! nat wy) (kx1 + 1) iy 2
         else c)"
proof -
  have a: "0 \<le> kx1 + 1" using assms(2) by simp
  show ?thesis
    by (simp add: corner_loop_x_step corner_loop_x_done
        corner_valid [OF assms(1,2,3) _ assms(4)] corner_valid [OF assms(1) a assms(3) _ assms(4)])
qed

lemma valid_flow_small:
  assumes "valid_flow f"
  shows "flo_w f < 2 ^ 30" "flo_h f < 2 ^ 30"
proof -
  note v = valid_flowD [OF assms]
  have n2: "2 \<le> npb_of (flo_fmt f)" using npb_of_cases [of "flo_fmt f"] by auto
  have "flo_w f * flo_h f * 2 \<le> flo_w f * flo_h f * npb_of (flo_fmt f)"
    using v(1,2) n2 by (intro mult_left_mono) simp_all
  then have p: "flo_w f * flo_h f < 2 ^ 30" using v(4) by simp
  have "flo_w f * 1 \<le> flo_w f * flo_h f" using v(1,2) by (intro mult_left_mono) simp_all
  then show "flo_w f < 2 ^ 30" using p by simp
  have "1 * flo_h f \<le> flo_w f * flo_h f" using v(1,2) by (intro mult_right_mono) simp_all
  then show "flo_h f < 2 ^ 30" using p by simp
qed

lemma int_of_floor_range: "- (2 ^ 31) \<le> int_of_floor r" "int_of_floor r < 2 ^ 31"
  by (cases r; simp)+

lemma cell_valid:
  assumes "valid_flow f"
    "0 \<le> int_of_floor (fdiv (float_of_int x) sx)" "0 \<le> int_of_floor (fdiv (float_of_int y) sy)"
  shows "cell f (flo_fmt f) (npb_of (flo_fmt f)) sx sy x y =
    Inr (blend f (fdiv (float_of_int x) sx) (fdiv (float_of_int y) sy) 0,
         blend f (fdiv (float_of_int x) sx) (fdiv (float_of_int y) sy) 1,
         if flo_fmt f = FF_FLOW
         then blend f (fdiv (float_of_int x) sx) (fdiv (float_of_int y) sy) 2 else Finite 0)"
proof -
  define rx ry where "rx = fdiv (float_of_int x) sx" and "ry = fdiv (float_of_int y) sy"
  define kx ky where "kx = int_of_floor rx" and "ky = int_of_floor ry"
  define wt where "wt = interpolate2D_weights rx ry"
  have k0: "0 \<le> kx" "0 \<le> ky" using assms(2,3) by (simp_all add: kx_def ky_def rx_def ry_def)
  have k1: "kx < 2 ^ 31" "ky < 2 ^ 31"
    unfolding kx_def ky_def by (rule int_of_floor_range)+
  note sm = valid_flow_small [OF assms(1)]
  have c: "cell f (flo_fmt f) (npb_of (flo_fmt f)) sx sy x y =
      corner_loop_y f (flo_fmt f) (npb_of (flo_fmt f)) wt kx (wrap32 (kx + 2)) (wrap32 (ky + 2)) ky 0
        (Finite 0, Finite 0, Finite 0)"
    by (simp add: cell_def Let_def rx_def ry_def kx_def ky_def wt_def)
  have b: "blend f rx ry ch =
      accum f (accum f (accum f (accum f (Finite 0) (wt ! 0 ! 0) kx ky ch)
                                   (wt ! 1 ! 0) (kx + 1) ky ch)
                          (wt ! 0 ! 1) kx (ky + 1) ch)
                 (wt ! 1 ! 1) (kx + 1) (ky + 1) ch" for ch
    by (simp add: blend_def Let_def kx_def ky_def wt_def)
  show ?thesis
  proof (cases "ky + 2 < 2 ^ 31")
    case False
    then have "wrap32 (ky + 2) = ky + 2 - 2 ^ 32" using k1 k0 by (intro wrap32_high) simp_all
    then have "wrap32 (ky + 2) \<le> ky" using k1 by simp
    then have l: "corner_loop_y f (flo_fmt f) (npb_of (flo_fmt f)) wt kx (wrap32 (kx + 2)) (wrap32 (ky + 2)) ky 0
        (Finite 0, Finite 0, Finite 0) = Inr (Finite 0, Finite 0, Finite 0)" by (rule corner_loop_y_done)
    have "flo_h f \<le> ky" using False sm by simp
    then have "accum f a w i ky ch = a" "accum f a w i (ky + 1) ch = a" for a w i ch
      by (simp_all add: accum_skipped)
    then show ?thesis unfolding c l rx_def [symmetric] ry_def [symmetric] b by simp
  next
    case ky: True
    then have wy: "wrap32 (ky + 2) = ky + 2" using k0 by (intro wrap32_id') simp_all
    show ?thesis
    proof (cases "kx + 2 < 2 ^ 31")
      case False
      then have "wrap32 (kx + 2) = kx + 2 - 2 ^ 32" using k1 k0 by (intro wrap32_high) simp_all
      then have le: "wrap32 (kx + 2) \<le> kx" using k1 by simp
      have l: "corner_loop_y f (flo_fmt f) (npb_of (flo_fmt f)) wt kx (wrap32 (kx + 2)) (wrap32 (ky + 2)) ky 0
        (Finite 0, Finite 0, Finite 0) = Inr (Finite 0, Finite 0, Finite 0)"
        unfolding wy by (simp add: corner_loop_y_step corner_loop_y_done corner_loop_x_done [OF le])
      have "flo_w f \<le> kx" using False sm by simp
      then have "accum f a w kx i ch = a" "accum f a w (kx + 1) i ch = a" for a w i ch
        by (simp_all add: accum_skipped)
      then show ?thesis unfolding c l rx_def [symmetric] ry_def [symmetric] b by simp
    next
      case True
      then have wx: "wrap32 (kx + 2) = kx + 2" using k0 by (intro wrap32_id') simp_all
      have ky1: "0 \<le> ky + 1" using k0 by simp
      show ?thesis
        unfolding c wx wy rx_def [symmetric] ry_def [symmetric] b
        by (simp add: corner_loop_y_step corner_loop_y_done
            corner_loop_x_valid [OF assms(1) k0(1) k0(2)] corner_loop_x_valid [OF assms(1) k0(1) ky1])
    qed
  qed
qed

lemma store_cell_spec:
  assumes "flo_w out = w" "int (length (flo_data out)) = w * h * npb" "w * h * npb < 2 ^ 31"
    "npb = npb_of (flo_fmt out)" "0 \<le> x" "x < w" "0 \<le> y" "y < h"
  shows "\<exists>out'. store_cell out npb x y acc = Inr out' \<and> same_shape out out'
    \<and> (\<forall>x' y' ch. 0 \<le> x' \<and> x' < w \<and> 0 \<le> y' \<and> y' < h \<and> 0 \<le> ch \<and> ch < npb \<longrightarrow>
          flo_data out' ! nat (cell_index w npb x' y' + ch) =
            (if x' = x \<and> y' = y then chan acc ch else flo_data out ! nat (cell_index w npb x' y' + ch)))"
proof -
  obtain u v c where acc: "acc = (u, v, c)" by (cases acc)
  have nc: "npb = 2 \<or> npb = 3" using assms(4) npb_of_cases by simp
  have len: "flo_w out * h * npb < 2 ^ 31" using assms(1,3) by simp
  note i = IDX_exact [of x out y h npb, OF assms(5) _ assms(7,8) nc len, unfolded assms(1), OF assms(6)]
  note b = cell_index_bounds [OF assms(5-8) nc]
  let ?i = "cell_index w npb x y"
  define o1 where "o1 = out\<lparr>flo_data := (flo_data out)[nat ?i := u]\<rparr>"
  define o2 where "o2 = o1\<lparr>flo_data := (flo_data o1)[nat (?i + 1) := v]\<rparr>"
  define o3 where "o3 = (if flo_fmt out = FF_FLOW then o2\<lparr>flo_data := (flo_data o2)[nat (?i + 2) := c]\<rparr> else o2)"
  have s1: "store out (U_IDX out x y npb) u = Inr o1"
    unfolding i(1) o1_def using b nc assms(2) by (intro store_ok) auto
  have w1: "flo_w o1 = w" "flo_fmt o1 = flo_fmt out" "length (flo_data o1) = length (flo_data out)"
    by (simp_all add: o1_def assms(1))
  have len1: "flo_w o1 * h * npb < 2 ^ 31" using w1 assms(3) by simp
  note i1 = IDX_exact [of x o1 y h npb, OF assms(5) _ assms(7,8) nc len1, unfolded w1(1), OF assms(6)]
  have s2: "store o1 (V_IDX o1 x y npb) v = Inr o2"
    unfolding i1(2) o2_def using b nc assms(2) w1 by (intro store_ok) auto
  have w2: "flo_w o2 = w" "flo_fmt o2 = flo_fmt out" "length (flo_data o2) = length (flo_data out)"
    by (simp_all add: o2_def w1)
  have len2: "flo_w o2 * h * npb < 2 ^ 31" using w2 assms(3) by simp
  note i2 = IDX_exact [of x o2 y h npb, OF assms(5) _ assms(7,8) nc len2, unfolded w2(1), OF assms(6)]
  have s3: "flo_fmt out = FF_FLOW \<Longrightarrow> store o2 (C_IDX o2 x y npb) c = Inr o3"
    unfolding i2(3) o3_def using b assms(2,4) w2 by (simp add: store_def npb_of_def)
  have st: "store_cell out npb x y acc = Inr o3"
    using s3 by (simp add: store_cell_def acc s1 s2 w2 o3_def)
  have sh: "same_shape out o3"
    by (simp add: same_shape_def o3_def o2_def o1_def)
  have nth: "flo_data o3 ! nat (cell_index w npb x' y' + ch) =
            (if x' = x \<and> y' = y then chan acc ch else flo_data out ! nat (cell_index w npb x' y' + ch))"
    if r: "0 \<le> x'" "x' < w" "0 \<le> y'" "y' < h" "0 \<le> ch" "ch < npb" for x' y' ch
  proof -
    note b' = cell_index_bounds [OF r(1-4) nc]
    let ?j = "cell_index w npb x' y' + ch"
    have j: "0 \<le> ?j" "?j < w * h * npb" using b' r by simp_all
    have jl: "nat ?j < length (flo_data out)" using j assms(2) by linarith
    have d: "flo_data o3 = (if flo_fmt out = FF_FLOW
        then (flo_data out)[nat ?i := u, nat (?i + 1) := v, nat (?i + 2) := c]
        else (flo_data out)[nat ?i := u, nat (?i + 1) := v])"
      by (simp add: o3_def o2_def o1_def)
    have n3: "flo_fmt out \<noteq> FF_FLOW \<Longrightarrow> npb = 2" "flo_fmt out = FF_FLOW \<Longrightarrow> npb = 3"
      using assms(4) by (cases "flo_fmt out"; simp add: npb_of_def)+
    show ?thesis
    proof (cases "x' = x \<and> y' = y")
      case True
      then have e: "?j = ?i + ch" by simp
      have "ch = 0 \<or> ch = 1 \<or> (ch = 2 \<and> npb = 3)" using r(5,6) nc by auto
      then show ?thesis
        using True b jl n3 unfolding d e acc chan_def
        by (auto simp: nth_list_update nat_add_distrib)
    next
      case False
      have "?j \<noteq> ?i + k" if "0 \<le> k" "k < npb" for k
        using cell_index_inj [OF r(1,2) assms(5,6) r(5,6) that] False by auto
      from this [of 0] this [of 1] this [of 2] n3
      have ne: "?j \<noteq> ?i" "?j \<noteq> ?i + 1" "flo_fmt out = FF_FLOW \<Longrightarrow> ?j \<noteq> ?i + 2"
        using nc by auto
      have "nat ?i \<noteq> nat ?j" "nat (?i + 1) \<noteq> nat ?j" "flo_fmt out = FF_FLOW \<Longrightarrow> nat (?i + 2) \<noteq> nat ?j"
        using ne j b by (simp_all add: nat_eq_iff)
      then have "flo_data o3 ! nat ?j = flo_data out ! nat ?j"
        unfolding d by simp
      then show ?thesis using False by (simp only: if_False simp_thms)
    qed
  qed
  show ?thesis using st sh nth by blast
qed


lemma cell_loop_x_spec:
  assumes "flo_w out = w" "int (length (flo_data out)) = w * h * npb" "w * h * npb < 2 ^ 31"
    "npb = npb_of (flo_fmt out)" "0 \<le> y" "y < h" "0 \<le> x"
    "\<forall>x'. x \<le> x' \<and> x' < w \<longrightarrow> cell f (flo_fmt out) npb sx sy x' y = Inr (g x' y)"
  shows "\<exists>out'. cell_loop_x f npb sx sy w y x out = Inr out' \<and> same_shape out out'
    \<and> (\<forall>x' y' ch. 0 \<le> x' \<and> x' < w \<and> 0 \<le> y' \<and> y' < h \<and> 0 \<le> ch \<and> ch < npb \<longrightarrow>
          flo_data out' ! nat (cell_index w npb x' y' + ch) =
            (if y' = y \<and> x \<le> x' then chan (g x' y) ch
             else flo_data out ! nat (cell_index w npb x' y' + ch)))"
  using assms
proof (induction "nat (w - x)" arbitrary: x out)
  case 0
  then have "\<not> x < w" by simp
  then have "cell_loop_x f npb sx sy w y x out = Inr out"
    by (subst cell_loop_x.simps) simp
  then show ?case using \<open>\<not> x < w\<close> by (auto simp: same_shape_refl)
next
  case (Suc n)
  then have xw: "x < w" by linarith
  have c: "cell f (flo_fmt out) npb sx sy x y = Inr (g x y)" using Suc.prems(8) xw by simp
  from store_cell_spec [OF Suc.prems(1-4) Suc.prems(7) xw Suc.prems(5,6), of "g x y"]
  obtain o1 where o1: "store_cell out npb x y (g x y) = Inr o1" "same_shape out o1"
    and n1: "\<forall>x' y' ch. 0 \<le> x' \<and> x' < w \<and> 0 \<le> y' \<and> y' < h \<and> 0 \<le> ch \<and> ch < npb \<longrightarrow>
          flo_data o1 ! nat (cell_index w npb x' y' + ch) =
            (if x' = x \<and> y' = y then chan (g x y) ch else flo_data out ! nat (cell_index w npb x' y' + ch))"
    by blast
  have sh: "flo_w o1 = w" "int (length (flo_data o1)) = w * h * npb" "npb = npb_of (flo_fmt o1)"
      "flo_fmt o1 = flo_fmt out"
    using o1(2) Suc.prems(1,2,4) by (simp_all add: same_shape_def)
  have m: "n = nat (w - (x + 1))" using Suc.hyps(2) by linarith
  have cs: "\<forall>x'. x + 1 \<le> x' \<and> x' < w \<longrightarrow> cell f (flo_fmt o1) npb sx sy x' y = Inr (g x' y)"
    using Suc.prems(8) sh(4) by simp
  have x1: "0 \<le> x + 1" using Suc.prems(7) by simp
  from Suc.hyps(1) [OF m sh(1,2) Suc.prems(3) sh(3) Suc.prems(5,6) x1 cs]
  obtain o2 where o2: "cell_loop_x f npb sx sy w y (x + 1) o1 = Inr o2" "same_shape o1 o2"
    and n2: "\<forall>x' y' ch. 0 \<le> x' \<and> x' < w \<and> 0 \<le> y' \<and> y' < h \<and> 0 \<le> ch \<and> ch < npb \<longrightarrow>
          flo_data o2 ! nat (cell_index w npb x' y' + ch) =
            (if y' = y \<and> x + 1 \<le> x' then chan (g x' y) ch
             else flo_data o1 ! nat (cell_index w npb x' y' + ch))"
    by blast
  have r: "cell_loop_x f npb sx sy w y x out = Inr o2"
    by (subst cell_loop_x.simps) (simp add: xw c o1(1) o2(1))
  have "flo_data o2 ! nat (cell_index w npb x' y' + ch) =
            (if y' = y \<and> x \<le> x' then chan (g x' y) ch
             else flo_data out ! nat (cell_index w npb x' y' + ch))"
    if "0 \<le> x' \<and> x' < w \<and> 0 \<le> y' \<and> y' < h \<and> 0 \<le> ch \<and> ch < npb" for x' y' ch
    using n1 [rule_format, OF that] n2 [rule_format, OF that] by auto
  then show ?case using r same_shape_trans [OF o1(2) o2(2)] by blast
qed

lemma cell_loop_y_spec:
  assumes "flo_w out = w" "int (length (flo_data out)) = w * h * npb" "w * h * npb < 2 ^ 31"
    "npb = npb_of (flo_fmt out)" "0 \<le> y"
    "\<forall>x' y'. 0 \<le> x' \<and> x' < w \<and> y \<le> y' \<and> y' < h \<longrightarrow>
       cell f (flo_fmt out) npb sx sy x' y' = Inr (g x' y')"
  shows "\<exists>out'. cell_loop_y f npb sx sy w h y out = Inr out' \<and> same_shape out out'
    \<and> (\<forall>x' y' ch. 0 \<le> x' \<and> x' < w \<and> 0 \<le> y' \<and> y' < h \<and> 0 \<le> ch \<and> ch < npb \<longrightarrow>
          flo_data out' ! nat (cell_index w npb x' y' + ch) =
            (if y \<le> y' then chan (g x' y') ch
             else flo_data out ! nat (cell_index w npb x' y' + ch)))"
  using assms
proof (induction "nat (h - y)" arbitrary: y out)
  case 0
  then have "\<not> y < h" by simp
  then have "cell_loop_y f npb sx sy w h y out = Inr out"
    by (subst cell_loop_y.simps) simp
  then show ?case using \<open>\<not> y < h\<close> by (auto simp: same_shape_refl)
next
  case (Suc n)
  then have yh: "y < h" by linarith
  have cx: "\<forall>x'. 0 \<le> x' \<and> x' < w \<longrightarrow> cell f (flo_fmt out) npb sx sy x' y = Inr (g x' y)"
    using Suc.prems(6) yh by simp
  have z: "(0::int) \<le> 0" by simp
  from cell_loop_x_spec [where g = g and x = 0 and f = f and sx = sx and sy = sy,
      OF Suc.prems(1-5) yh z cx]
  obtain o1 where o1: "cell_loop_x f npb sx sy w y 0 out = Inr o1" "same_shape out o1"
    and n1: "\<forall>x' y' ch. 0 \<le> x' \<and> x' < w \<and> 0 \<le> y' \<and> y' < h \<and> 0 \<le> ch \<and> ch < npb \<longrightarrow>
          flo_data o1 ! nat (cell_index w npb x' y' + ch) =
            (if y' = y \<and> 0 \<le> x' then chan (g x' y) ch
             else flo_data out ! nat (cell_index w npb x' y' + ch))"
    by blast
  have sh: "flo_w o1 = w" "int (length (flo_data o1)) = w * h * npb" "npb = npb_of (flo_fmt o1)"
      "flo_fmt o1 = flo_fmt out"
    using o1(2) Suc.prems(1,2,4) by (simp_all add: same_shape_def)
  have m: "n = nat (h - (y + 1))" using Suc.hyps(2) by linarith
  have cs: "\<forall>x' y'. 0 \<le> x' \<and> x' < w \<and> y + 1 \<le> y' \<and> y' < h \<longrightarrow>
       cell f (flo_fmt o1) npb sx sy x' y' = Inr (g x' y')"
    using Suc.prems(6) sh(4) by simp
  have y1: "0 \<le> y + 1" using Suc.prems(5) by simp
  from Suc.hyps(1) [OF m sh(1,2) Suc.prems(3) sh(3) y1 cs]
  obtain o2 where o2: "cell_loop_y f npb sx sy w h (y + 1) o1 = Inr o2" "same_shape o1 o2"
    and n2: "\<forall>x' y' ch. 0 \<le> x' \<and> x' < w \<and> 0 \<le> y' \<and> y' < h \<and> 0 \<le> ch \<and> ch < npb \<longrightarrow>
          flo_data o2 ! nat (cell_index w npb x' y' + ch) =
            (if y + 1 \<le> y' then chan (g x' y') ch
             else flo_data o1 ! nat (cell_index w npb x' y' + ch))"
    by blast
  have r: "cell_loop_y f npb sx sy w h y out = Inr o2"
    by (subst cell_loop_y.simps) (simp add: yh o1(1) o2(1))
  have "flo_data o2 ! nat (cell_index w npb x' y' + ch) =
            (if y \<le> y' then chan (g x' y') ch
             else flo_data out ! nat (cell_index w npb x' y' + ch))"
    if "0 \<le> x' \<and> x' < w \<and> 0 \<le> y' \<and> y' < h \<and> 0 \<le> ch \<and> ch < npb" for x' y' ch
    using n1 [rule_format, OF that] n2 [rule_format, OF that] that by (cases "y' = y") auto
  then show ?case using r same_shape_trans [OF o1(2) o2(2)] by blast
qed


lemma alloc_out_ok:
  assumes "0 < w" "0 < h" "w * h * npb_of (flo_fmt f) < 2 ^ 31"
  shows "alloc_out f w h = Inr \<lparr>flo_w = w, flo_h = h, flo_fmt = flo_fmt f,
      flo_nmemb = w * h * npb_of (flo_fmt f),
      flo_data = replicate (nat (w * h * npb_of (flo_fmt f))) (Finite 0)\<rparr>"
proof -
  let ?n = "npb_of (flo_fmt f)"
  have n2: "0 < ?n" using npb_of_cases [of "flo_fmt f"] by auto
  have "(?n * w) * 1 \<le> (?n * w) * h" using assms(1,2) n2 by (intro mult_left_mono) simp_all
  also have "(?n * w) * h = w * h * ?n" by (simp add: ac_simps)
  finally have "?n * w \<le> w * h * ?n" by simp
  then have "?n * w < 2 ^ 31" using assms(3) by linarith
  moreover have "0 \<le> ?n * w" using assms(1) n2 by simp
  ultimately have a: "wrap32 (?n * w) = ?n * w" by (intro wrap32_id')
  have p: "0 \<le> w * h * ?n" using assms n2 by simp
  have e: "?n * w * h = w * h * ?n" by (simp add: ac_simps)
  have b: "wrap32 (?n * w * h) = w * h * ?n" unfolding e using p assms(3) by (rule wrap32_id')
  have req: "mul_size_t (size_t (w * h * ?n)) sizeof_float = 4 * nat (w * h * ?n)"
    by (rule size_t_nonneg [OF p assms(3)])
  have m: "\<not> malloc_null (4 * nat (w * h * ?n))"
    using assms(3) p by (simp add: malloc_null_def PTRDIFF_MAX_def)
  show ?thesis
    unfolding alloc_out_def Let_def a b req using m by (simp add: sizeof_float_def)
qed


lemma resample_spec:
  assumes "0 < w" "0 < h" "w * h * npb_of (flo_fmt f) < 2 ^ 31"
    "\<forall>x y. 0 \<le> x \<and> x < w \<and> 0 \<le> y \<and> y < h \<longrightarrow>
       cell f (flo_fmt f) (npb_of (flo_fmt f)) (exact_scaling sx w (flo_w f)) (exact_scaling sy h (flo_h f)) x y
         = Inr (g x y)"
  shows "\<exists>out. resample f w h sx sy = Inr out \<and> flo_w out = w \<and> flo_h out = h
    \<and> flo_fmt out = flo_fmt f \<and> flo_nmemb out = w * h * npb_of (flo_fmt f)
    \<and> int (length (flo_data out)) = w * h * npb_of (flo_fmt f)
    \<and> (\<forall>x y ch. 0 \<le> x \<and> x < w \<and> 0 \<le> y \<and> y < h \<and> 0 \<le> ch \<and> ch < npb_of (flo_fmt f) \<longrightarrow>
          flo_data out ! nat (cell_index w (npb_of (flo_fmt f)) x y + ch) = chan (g x y) ch)"
proof -
  let ?n = "npb_of (flo_fmt f)"
  define o0 :: "cfloat FLOfile" where "o0 = \<lparr>flo_w = w, flo_h = h, flo_fmt = flo_fmt f,
      flo_nmemb = w * h * ?n, flo_data = replicate (nat (w * h * ?n)) (Finite 0)\<rparr>"
  have a: "alloc_out f w h = Inr o0" unfolding o0_def by (rule alloc_out_ok [OF assms(1-3)])
  have p: "0 \<le> w * h * ?n" using assms(1,2) npb_of_cases [of "flo_fmt f"] by auto
  have o: "flo_w o0 = w" "int (length (flo_data o0)) = w * h * ?n" "?n = npb_of (flo_fmt o0)"
    "flo_fmt o0 = flo_fmt f" "flo_h o0 = h" "flo_nmemb o0 = w * h * ?n"
    using p by (simp_all add: o0_def)
  have cs: "\<forall>x' y'. 0 \<le> x' \<and> x' < w \<and> 0 \<le> y' \<and> y' < h \<longrightarrow>
       cell f (flo_fmt o0) ?n (exact_scaling sx w (flo_w f)) (exact_scaling sy h (flo_h f)) x' y' = Inr (g x' y')"
    unfolding o(4) by (rule assms(4))
  have z: "(0::int) \<le> 0" by simp
  have "\<exists>out'. cell_loop_y f ?n (exact_scaling sx w (flo_w f)) (exact_scaling sy h (flo_h f)) w h 0 o0 = Inr out'
      \<and> same_shape o0 out'
      \<and> (\<forall>x' y' ch. 0 \<le> x' \<and> x' < w \<and> 0 \<le> y' \<and> y' < h \<and> 0 \<le> ch \<and> ch < ?n \<longrightarrow>
          flo_data out' ! nat (cell_index w ?n x' y' + ch) =
            (if 0 \<le> y' then chan (g x' y') ch else flo_data o0 ! nat (cell_index w ?n x' y' + ch)))"
    by (rule cell_loop_y_spec [where g = g and y = 0 and f = f and h = h, OF o(1,2) assms(3) o(3) z cs])
  then obtain out where out: "cell_loop_y f ?n (exact_scaling sx w (flo_w f)) (exact_scaling sy h (flo_h f)) w h 0 o0 = Inr out"
    and sh: "same_shape o0 out"
    and n: "\<And>x' y' ch. 0 \<le> x' \<and> x' < w \<and> 0 \<le> y' \<and> y' < h \<and> 0 \<le> ch \<and> ch < ?n \<Longrightarrow>
          flo_data out ! nat (cell_index w ?n x' y' + ch) =
            (if 0 \<le> y' then chan (g x' y') ch else flo_data o0 ! nat (cell_index w ?n x' y' + ch))"
    by (elim exE conjE) (rule that, assumption+, simp)
  have r: "resample f w h sx sy = Inr out"
    unfolding resample_def a by (simp add: out Let_def)
  have nth: "\<forall>x y ch. 0 \<le> x \<and> x < w \<and> 0 \<le> y \<and> y < h \<and> 0 \<le> ch \<and> ch < ?n \<longrightarrow>
      flo_data out ! nat (cell_index w ?n x y + ch) = chan (g x y) ch"
  proof (intro allI impI)
    fix x y ch assume h: "0 \<le> x \<and> x < w \<and> 0 \<le> y \<and> y < h \<and> 0 \<le> ch \<and> ch < ?n"
    then have "0 \<le> y" by simp
    with n [OF h] show "flo_data out ! nat (cell_index w ?n x y + ch) = chan (g x y) ch" by simp
  qed
  have f1: "flo_w out = w" "flo_h out = h" "flo_fmt out = flo_fmt f" "flo_nmemb out = w * h * ?n"
    "int (length (flo_data out)) = w * h * ?n"
    by (simp_all add: sh [unfolded same_shape_def, THEN conjunct1, symmetric]
        sh [unfolded same_shape_def, THEN conjunct2, THEN conjunct1, symmetric]
        sh [unfolded same_shape_def, THEN conjunct2, THEN conjunct2, THEN conjunct1, symmetric]
        sh [unfolded same_shape_def, THEN conjunct2, THEN conjunct2, THEN conjunct2, THEN conjunct1, symmetric]
        sh [unfolded same_shape_def, THEN conjunct2, THEN conjunct2, THEN conjunct2, THEN conjunct2, symmetric]
        o(1,2,4,5,6))
  show ?thesis
    by (intro exI [of _ out] conjI) (fact r f1 nth)+
qed


lemma resample_render:
  assumes "valid_flow f" "0 < w" "0 < h" "w * h * npb_of (flo_fmt f) < 2 ^ 31"
    "\<forall>x. 0 \<le> x \<and> x < w \<longrightarrow> 0 \<le> int_of_floor (fdiv (float_of_int x) (exact_scaling sx w (flo_w f)))"
    "\<forall>y. 0 \<le> y \<and> y < h \<longrightarrow> 0 \<le> int_of_floor (fdiv (float_of_int y) (exact_scaling sy h (flo_h f)))"
  shows "resample f w h sx sy =
    Inr \<lparr>flo_w = w, flo_h = h, flo_fmt = flo_fmt f, flo_nmemb = w * h * npb_of (flo_fmt f),
         flo_data = map (\<lambda>i. blended f w (exact_scaling sx w (flo_w f)) (exact_scaling sy h (flo_h f)) (int i))
                      [0..<nat (w * h * npb_of (flo_fmt f))]\<rparr>"
proof -
  let ?n = "npb_of (flo_fmt f)"
  let ?sx = "exact_scaling sx w (flo_w f)" and ?sy = "exact_scaling sy h (flo_h f)"
  define g where "g x y = (blend f (fdiv (float_of_int x) ?sx) (fdiv (float_of_int y) ?sy) 0,
         blend f (fdiv (float_of_int x) ?sx) (fdiv (float_of_int y) ?sy) 1,
         if flo_fmt f = FF_FLOW then blend f (fdiv (float_of_int x) ?sx) (fdiv (float_of_int y) ?sy) 2
         else Finite 0)" for x y
  have cs: "\<forall>x y. 0 \<le> x \<and> x < w \<and> 0 \<le> y \<and> y < h \<longrightarrow>
       cell f (flo_fmt f) ?n ?sx ?sy x y = Inr (g x y)"
  proof (intro allI impI)
    fix x y assume r: "0 \<le> x \<and> x < w \<and> 0 \<le> y \<and> y < h"
    then have "0 \<le> int_of_floor (fdiv (float_of_int x) ?sx)" "0 \<le> int_of_floor (fdiv (float_of_int y) ?sy)"
      using assms(5,6) by simp_all
    then show "cell f (flo_fmt f) ?n ?sx ?sy x y = Inr (g x y)"
      unfolding g_def by (rule cell_valid [OF assms(1)])
  qed
  from resample_spec [where g = g, OF assms(2,3,4) cs]
  obtain out where out: "resample f w h sx sy = Inr out" "flo_w out = w" "flo_h out = h"
    "flo_fmt out = flo_fmt f" "flo_nmemb out = w * h * ?n" "int (length (flo_data out)) = w * h * ?n"
    and n: "\<And>x y ch. 0 \<le> x \<and> x < w \<and> 0 \<le> y \<and> y < h \<and> 0 \<le> ch \<and> ch < ?n \<Longrightarrow>
          flo_data out ! nat (cell_index w ?n x y + ch) = chan (g x y) ch"
    by (elim exE conjE) (rule that, assumption+, simp)
  have ch: "chan (g x y) ch = blend f (fdiv (float_of_int x) ?sx) (fdiv (float_of_int y) ?sy) ch"
    if "0 \<le> ch" "ch < ?n" for x y ch
  proof -
    have "ch = 0 \<or> ch = 1 \<or> (ch = 2 \<and> flo_fmt f = FF_FLOW)"
      using that by (cases "flo_fmt f") (auto simp: npb_of_def)
    then show ?thesis by (auto simp: chan_def g_def)
  qed
  have n0: "0 < ?n" using npb_of_cases [of "flo_fmt f"] by auto
  have len: "length (flo_data out) = nat (w * h * ?n)" using out(6) by linarith
  have "flo_data out = map (\<lambda>i. blended f w ?sx ?sy (int i)) [0..<nat (w * h * ?n)]"
  proof (rule nth_equalityI)
    show "length (flo_data out) = length (map (\<lambda>i. blended f w ?sx ?sy (int i)) [0..<nat (w * h * ?n)])"
      by (simp add: len)
    fix i assume "i < length (flo_data out)"
    then have i: "0 \<le> int i" "int i < w * h * ?n" using out(6) by simp_all
    note d = index_decode [OF i assms(2) n0]
    have "flo_data out ! nat (int i) = blended f w ?sx ?sy (int i)"
      using n [of "int i div ?n mod w" "int i div ?n div w" "int i mod ?n"] d
        ch [OF d(5,6), of "int i div ?n mod w" "int i div ?n div w"]
      by (simp add: blended_def Let_def)
    then show "flo_data out ! i = map (\<lambda>i. blended f w ?sx ?sy (int i)) [0..<nat (w * h * ?n)] ! i"
      using \<open>i < length (flo_data out)\<close> len by simp
  qed
  then have "out = \<lparr>flo_w = w, flo_h = h, flo_fmt = flo_fmt f, flo_nmemb = w * h * ?n,
         flo_data = map (\<lambda>i. blended f w ?sx ?sy (int i)) [0..<nat (w * h * ?n)]\<rparr>"
    using out(2-5) by (cases out) simp
  then show ?thesis using out(1) by simp
qed

section \<open>\<^verbatim>\<open>write_flow\<close> followed by \<^verbatim>\<open>read_flow\<close>\<close>

lemma write_flow_fd_read_flow_fd:
  assumes "valid_flow f"
  shows "\<exists>bs. write_flow_fd f = Inr bs \<and> read_flow_fd bs = Inr f"
proof -
  let ?n = "flo_w f * flo_h f * npb_of (flo_fmt f)"
  from assms have v: "0 < flo_w f" "0 < flo_h f" "flo_fmt f \<noteq> FF_LAST" "?n < 2 ^ 31"
    "flo_nmemb f = ?n" "int (length (flo_data f)) = flo_nmemb f"
    by (simp_all add: valid_flow_def)
  have wh: "flo_w f < 2 ^ 31" "flo_h f < 2 ^ 31"
    using dims_below_product [OF v(1,2,4)] by simp_all
  have n0: "0 \<le> flo_nmemb f" using v(6) by linarith
  have req: "mul_size_t (size_t (flo_nmemb f)) sizeof_float = 4 * length (flo_data f)"
    using size_t_nonneg [OF n0] v by simp
  have w: "write_flow_fd f = Inr (flo_formats (flo_fmt f) @ store_int (flo_w f) @ store_int (flo_h f)
      @ concat (map store_float (flo_data f)))"
    unfolding write_flow_fd_def Let_def req using v(3)
    by (simp add: sizeof_float_def length_store_floats)
  have sz: "scale_sz (flo_fmt f) (wrap32 (flo_w f * flo_h f)) = flo_nmemb f"
    using scale_sz_exact [OF v(1,2,3,4)] v(5) by simp
  have p: "fread 1 (4 * length (flo_data f)) (concat (map store_float (flo_data f))) =
      (4 * length (flo_data f), concat (map store_float (flo_data f)), [])"
    using fread_exact [of "concat (map store_float (flo_data f))" 1 "4 * length (flo_data f)" "[]"]
    by (simp add: length_store_floats)
  have m: "\<not> malloc_null (4 * length (flo_data f))"
    using v(4,5,6) by (simp add: malloc_null_def PTRDIFF_MAX_def)
  have "- (2 ^ 31) \<le> flo_w f" "- (2 ^ 31) \<le> flo_h f" using v(1,2) by simp_all
  then have r: "read_flow_fd (flo_formats (flo_fmt f) @ store_int (flo_w f) @ store_int (flo_h f)
      @ concat (map store_float (flo_data f))) = Inr f"
    using v(1,2)
    by (simp add: read_flow_fd_header [OF v(3) _ wh(1) _ wh(2)] sz req p [unfolded One_nat_def] m
        load_store_floats Let_def)
  show ?thesis using w r by simp
qed

section \<open>Writing a field and reading it back\<close>

text \<open>
  Claim C2. For every valid field \<open>f\<close> (positive width and height, format \<open>FF_FLO\<close> or
  \<open>FF_FLOW\<close>, a buffer of \<open>w * h * npb\<close> samples), \<^verbatim>\<open>write_flow\<close> produces a byte stream, and
  \<^verbatim>\<open>read_flow\<close> on that stream returns \<open>f\<close> itself: the same width, height, format and
  \<^verbatim>\<open>nmemb\<close>, and the same sequence of 32-bit sample patterns.
\<close>

theorem write_read_roundtrip:
  assumes "valid_flow f"
  shows "\<exists>bs. write_flow_fd f = Inr bs \<and> read_flow_fd bs = Inr f"
  using assms by (rule write_flow_fd_read_flow_fd)

theorem write_read_roundtrip_witness:
  "valid_flow \<lparr>flo_w = 1, flo_h = 1, flo_fmt = FF_FLOW, flo_nmemb = 3,
      flo_data = [0x3F800000, 0xBF000000, 0x7FC00000 :: 32 word]\<rparr>
   \<and> (\<exists>bs. write_flow_fd \<lparr>flo_w = 1, flo_h = 1, flo_fmt = FF_FLOW, flo_nmemb = 3,
            flo_data = [0x3F800000, 0xBF000000, 0x7FC00000 :: 32 word]\<rparr> = Inr bs
          \<and> read_flow_fd bs = Inr \<lparr>flo_w = 1, flo_h = 1, flo_fmt = FF_FLOW, flo_nmemb = 3,
            flo_data = [0x3F800000, 0xBF000000, 0x7FC00000 :: 32 word]\<rparr>)"
proof -
  have v: "valid_flow \<lparr>flo_w = 1, flo_h = 1, flo_fmt = FF_FLOW, flo_nmemb = 3,
      flo_data = [0x3F800000, 0xBF000000, 0x7FC00000 :: 32 word]\<rparr>"
    by (simp add: valid_flow_def npb_of_def)
  from write_read_roundtrip [OF v] v show ?thesis by simp
qed

section \<open>Malformed input\<close>

text \<open>
  Claim C8 asks for "Incomplete data" whenever a stream with a valid tag and positive
  dimensions has fewer payload bytes than \<open>w * h * npb * 4\<close>. \<^verbatim>\<open>read_flow\<close> makes the test
  (\<^verbatim>\<open>fread(...) != (size_t)sz\<close>) against \<^verbatim>\<open>sz\<close>, the product computed in an \<^verbatim>\<open>int\<close> and
  never checked. The header \<open>w = 3\<close>, \<open>h = 715827883\<close> of a \<open>FF_FLO\<close> file announces
  \<open>17179869192\<close> payload bytes; \<^verbatim>\<open>sz\<close> wraps to 2, and \<^verbatim>\<open>read_flow\<close> takes the eight bytes
  that follow for the whole payload and returns a field of two samples.
\<close>

theorem read_flow_accepts_short_payload:
  "int (length [1, 2, 3, 4, 5, 6, 7, 8 :: byte]) < 3 * 715827883 * npb_of FF_FLO * 4
   \<and> read_flow_fd (flo_formats FF_FLO @ store_int 3 @ store_int 715827883
        @ [1, 2, 3, 4, 5, 6, 7, 8])
      = Inr \<lparr>flo_w = 3, flo_h = 715827883, flo_fmt = FF_FLO, flo_nmemb = 2,
             flo_data = [0x04030201, 0x08070605]\<rparr>"
  using read_flow_fd_header [of FF_FLO 3 715827883 "[1, 2, 3, 4, 5, 6, 7, 8]"]
  by (simp add: scale_sz_def wrap32_def size_t_def mul_size_t_def fread_def malloc_null_def Let_def
      sizeof_float_def PTRDIFF_MAX_def load_float_def bytes_le_def npb_of_def)

section \<open>The size \<^verbatim>\<open>read_flow\<close> computes\<close>

text \<open>
  Claim C9 says that every field \<^verbatim>\<open>read_flow\<close> returns has exactly \<open>w * h * npb\<close> samples,
  also when that product does not fit 32 bits. On the twelve bytes \<^verbatim>\<open>PIEH\<close>, \<open>65536\<close>,
  \<open>65536\<close> the product \<^verbatim>\<open>w * h\<close> wraps to 0: \<^verbatim>\<open>read_flow\<close> asks for no payload and
  returns a field of width and height 65536 with \<^verbatim>\<open>nmemb = 0\<close> and an empty buffer.
\<close>

theorem read_flow_wrapped_size:
  "read_flow_fd (flo_formats FF_FLO @ store_int 65536 @ store_int 65536) =
     Inr \<lparr>flo_w = 65536, flo_h = 65536, flo_fmt = FF_FLO, flo_nmemb = 0, flo_data = []\<rparr>
   \<and> int (length ([] :: 32 word list)) \<noteq> 65536 * 65536 * npb_of FF_FLO"
  using read_flow_fd_header [of FF_FLO 65536 65536 "[]"]
  by (simp add: scale_sz_def wrap32_def size_t_def mul_size_t_def fread_def malloc_null_def Let_def
      npb_of_def)

end
